theory Spec2Isabelle
  imports Main
begin

section \<open>Data model\<close>

text \<open>
  The application keeps its state in React hooks of the component \<open>App\<close>. The types
  \<open>Artifact\<close>, \<open>Session\<close> and \<open>SavedArtifact\<close> are imported from \<open>types.ts\<close>; their
  fields are the ones the component reads and writes. Strings are lists of characters,
  identifiers are strings. The field \<open>id\<close> of an artifact and of a session is written
  \<open>artifact_id\<close> and \<open>session_id\<close>.
\<close>

datatype ArtifactStatus = Streaming | Complete | Error

text \<open>
  \<open>styleName\<close> is read from \<open>generatedStyles[i]\<close>, which is \<open>undefined\<close> out of range:
  \<open>None\<close> stands for \<open>undefined\<close>.
\<close>

record Artifact =
  artifact_id :: string
  styleName :: "string option"
  html :: string
  status :: ArtifactStatus

record Session =
  session_id :: string
  prompt :: string
  timestamp :: nat
  artifacts :: "Artifact list"

record SavedArtifact = Artifact +
  saved_prompt :: string
  savedAt :: nat

text \<open>
  An entry of the vault is what \<open>handleSaveArtifact\<close> stores,
  \<open>{ ...artifact, prompt, savedAt }\<close>: a \<open>SavedArtifact\<close>, or, when \<open>artifact\<close> is
  \<open>undefined\<close> and the spread adds no field, the bare object \<open>{ prompt, savedAt }\<close>.
  \<open>entryId\<close> is the field \<open>id\<close> of an entry, \<open>None\<close> for \<open>undefined\<close>.
\<close>

datatype VaultEntry = Entry SavedArtifact | Bare string nat

fun entryId :: "VaultEntry \<Rightarrow> string option" where
  "entryId (Entry s) = Some (artifact_id s)"
| "entryId (Bare p t) = None"

datatype ViewMode = MainView | StackView | VaultView

datatype DrawerMode = CodeMode | VariationsMode

record DrawerState =
  isOpen :: bool
  mode :: "DrawerMode option"
  title :: string

record AppState =
  view :: ViewMode
  sessions :: "Session list"
  currentSessionIndex :: int
  focusedArtifactIndex :: "nat option"
  savedArtifacts :: "VaultEntry list"
  isFullscreen :: bool
  inputValue :: string
  isLoading :: bool
  drawerState :: DrawerState

text \<open>The initial values of the hooks.\<close>

definition initialState :: AppState where
  "initialState =
     \<lparr>view = MainView, sessions = [], currentSessionIndex = -1,
      focusedArtifactIndex = None, savedArtifacts = [], isFullscreen = False,
      inputValue = [], isLoading = False,
      drawerState = \<lparr>isOpen = False, mode = None, title = []\<rparr>\<rparr>"

text \<open>\<open>xs.map((x, i) => f(i, x))\<close>: the callback also receives the index.\<close>

definition mapi :: "(nat \<Rightarrow> 'a \<Rightarrow> 'b) \<Rightarrow> 'a list \<Rightarrow> 'b list" where
  "mapi f xs = map (\<lambda>(i, x). f i x) (enumerate 0 xs)"

section \<open>Streaming updates of one artifact\<close>

text \<open>
  \<open>generateArtifact\<close> publishes every received increment with
  \<^verbatim>\<open>setSessions(prev => prev.map(sess => sess.id === sessionId ? {...sess,
     artifacts: sess.artifacts.map(art => art.id === artifact.id
       ? {...art, html: accumulatedHtml} : art)} : sess))\<close>
  and the final text with the same shape, setting \<open>html\<close> and \<open>status\<close>. Both address the
  session and the artifact by id.
\<close>

definition patchArtifacts ::
  "string \<Rightarrow> string \<Rightarrow> (Artifact \<Rightarrow> Artifact) \<Rightarrow> Session list \<Rightarrow> Session list" where
  "patchArtifacts sessionId artifactId f prev =
     map (\<lambda>sess. if session_id sess = sessionId
                 then sess\<lparr>artifacts :=
                        map (\<lambda>art. if artifact_id art = artifactId then f art else art)
                            (artifacts sess)\<rparr>
                 else sess) prev"

definition publishIncrement :: "string \<Rightarrow> string \<Rightarrow> string \<Rightarrow> Session list \<Rightarrow> Session list" where
  "publishIncrement sessionId artifactId accumulatedHtml =
     patchArtifacts sessionId artifactId (\<lambda>art. art\<lparr>html := accumulatedHtml\<rparr>)"

text \<open>The status of the final update: \<open>finalHtml ? 'complete' : 'error'\<close>.\<close>

definition finalStatus :: "string \<Rightarrow> ArtifactStatus" where
  "finalStatus finalHtml = (if finalHtml \<noteq> [] then Complete else Error)"

definition publishFinal :: "string \<Rightarrow> string \<Rightarrow> string \<Rightarrow> Session list \<Rightarrow> Session list" where
  "publishFinal sessionId artifactId finalHtml =
     patchArtifacts sessionId artifactId
       (\<lambda>art. art\<lparr>html := finalHtml, status := finalStatus finalHtml\<rparr>)"

text \<open>Erasing every \<open>html\<close> of a history: what is left are all the other fields.\<close>

definition eraseHtml :: "Session list \<Rightarrow> Session list" where
  "eraseHtml ss =
     map (\<lambda>sess. sess\<lparr>artifacts := map (\<lambda>art. art\<lparr>html := []\<rparr>) (artifacts sess)\<rparr>) ss"

section \<open>Applying a variation\<close>

text \<open>
  \<^verbatim>\<open>const applyVariation = (html) => {
      if (focusedArtifactIndex === null) return;
      setSessions(prev => prev.map((sess, i) => i === currentSessionIndex ? {...sess,
        artifacts: sess.artifacts.map((art, j) =>
          j === focusedArtifactIndex ? {...art, html, status: 'complete'} : art)} : sess));
      setDrawerState(s => ({...s, isOpen: false}));
  }\<close>
\<close>

definition applyVariation :: "string \<Rightarrow> AppState \<Rightarrow> AppState" where
  "applyVariation h st =
     (case focusedArtifactIndex st of
        None \<Rightarrow> st
      | Some fi \<Rightarrow>
          st\<lparr>sessions :=
               mapi (\<lambda>i sess.
                      if int i = currentSessionIndex st
                      then sess\<lparr>artifacts :=
                             mapi (\<lambda>j art. if j = fi then art\<lparr>html := h, status := Complete\<rparr>
                                            else art)
                                  (artifacts sess)\<rparr>
                      else sess)
                    (sessions st),
             drawerState := (drawerState st)\<lparr>isOpen := False\<rparr>\<rparr>)"

section \<open>Navigation, vault and history\<close>

text \<open>
  \<open>xs[i]\<close> for a number \<open>i\<close>: \<open>undefined\<close> (here \<open>None\<close>) when \<open>i\<close> is negative or not
  below the length.
\<close>

definition jsIndex :: "'a list \<Rightarrow> int \<Rightarrow> 'a option" where
  "jsIndex xs i = (if 0 \<le> i \<and> nat i < length xs then Some (xs ! nat i) else None)"

definition nthOpt :: "'a list \<Rightarrow> nat \<Rightarrow> 'a option" where
  "nthOpt xs i = (if i < length xs then Some (xs ! i) else None)"

text \<open>
  \<^verbatim>\<open>const nextItem = () => {
      if (focusedArtifactIndex !== null) {
          if (focusedArtifactIndex < 2) setFocusedArtifactIndex(focusedArtifactIndex + 1);
      } else {
          if (currentSessionIndex < sessions.length - 1)
              setCurrentSessionIndex(currentSessionIndex + 1);
      }
  }\<close>
\<close>

definition nextItem :: "AppState \<Rightarrow> AppState" where
  "nextItem st =
     (case focusedArtifactIndex st of
        Some fi \<Rightarrow> if fi < 2 then st\<lparr>focusedArtifactIndex := Some (fi + 1)\<rparr> else st
      | None \<Rightarrow>
          if currentSessionIndex st < int (length (sessions st)) - 1
          then st\<lparr>currentSessionIndex := currentSessionIndex st + 1\<rparr> else st)"

definition prevItem :: "AppState \<Rightarrow> AppState" where
  "prevItem st =
     (case focusedArtifactIndex st of
        Some fi \<Rightarrow> if fi > 0 then st\<lparr>focusedArtifactIndex := Some (fi - 1)\<rparr> else st
      | None \<Rightarrow>
          if currentSessionIndex st > 0
          then st\<lparr>currentSessionIndex := currentSessionIndex st - 1\<rparr> else st)"

text \<open>
  The right navigation handle, the only caller of \<open>nextItem\<close>, is rendered when
  \<open>canGoForward\<close> holds:
  \<^verbatim>\<open>if (hasStarted && view === 'main' && !isFullscreen) {
      if (focusedArtifactIndex !== null) {
          canGoForward = focusedArtifactIndex < (currentSession?.artifacts.length || 0) - 1;
      } else {
          canGoForward = currentSessionIndex < sessions.length - 1;
      }
  }\<close>
\<close>

definition canGoForward :: "AppState \<Rightarrow> bool" where
  "canGoForward st =
     ((0 < length (sessions st) \<or> isLoading st) \<and> view st = MainView \<and> \<not> isFullscreen st \<and>
      (case focusedArtifactIndex st of
         Some fi \<Rightarrow>
           int fi < int (case jsIndex (sessions st) (currentSessionIndex st) of
                           None \<Rightarrow> 0 | Some cs \<Rightarrow> length (artifacts cs)) - 1
       | None \<Rightarrow> currentSessionIndex st < int (length (sessions st)) - 1))"

text \<open>
  The left handle, the only caller of \<open>prevItem\<close>, is rendered when \<open>canGoBack\<close> holds:
  \<open>focusedArtifactIndex > 0\<close> with a focus, \<open>currentSessionIndex > 0\<close> without, under the
  same outer condition.
\<close>

definition canGoBack :: "AppState \<Rightarrow> bool" where
  "canGoBack st =
     ((0 < length (sessions st) \<or> isLoading st) \<and> view st = MainView \<and> \<not> isFullscreen st \<and>
      (case focusedArtifactIndex st of
         Some fi \<Rightarrow> fi > 0
       | None \<Rightarrow> currentSessionIndex st > 0))"

text \<open>
  \<^verbatim>\<open>{canGoBack && (<button className="nav-handle left" onClick={prevItem} ...>)}
  {canGoForward && (<button className="nav-handle right" onClick={nextItem} ...>)}\<close>
  A handle that is not rendered cannot be pressed. Pressing the right handle, the
  \<open>advance\<close> of the specification, runs \<open>nextItem\<close> where \<open>canGoForward\<close> holds and does
  nothing elsewhere; the same for the left handle, \<open>retreat\<close> and \<open>prevItem\<close>.
\<close>

definition advance :: "AppState \<Rightarrow> AppState" where
  "advance st = (if canGoForward st then nextItem st else st)"

definition retreat :: "AppState \<Rightarrow> AppState" where
  "retreat st = (if canGoBack st then prevItem st else st)"

text \<open>The focus is in range: none, or an index of an artifact of the current session.\<close>

definition focusInRange :: "AppState \<Rightarrow> bool" where
  "focusInRange st =
     (case focusedArtifactIndex st of
        None \<Rightarrow> True
      | Some fi \<Rightarrow>
          (case jsIndex (sessions st) (currentSessionIndex st) of
             None \<Rightarrow> False
           | Some cs \<Rightarrow> fi < length (artifacts cs)))"

text \<open>The click on a card, \<open>setFocusedArtifactIndex(aIndex)\<close>, and the grid button.\<close>

definition focusArtifact :: "nat \<Rightarrow> AppState \<Rightarrow> AppState" where
  "focusArtifact aIndex st = st\<lparr>focusedArtifactIndex := Some aIndex\<rparr>"

definition gridView :: "AppState \<Rightarrow> AppState" where
  "gridView st = st\<lparr>focusedArtifactIndex := None\<rparr>"

definition handleGoHome :: "AppState \<Rightarrow> AppState" where
  "handleGoHome st =
     st\<lparr>view := MainView, sessions := [], currentSessionIndex := -1,
        focusedArtifactIndex := None, inputValue := [], isFullscreen := False\<rparr>"

text \<open>
  \<open>handleRestoreFromVault\<close> calls \<open>generateId()\<close> twice and reads the clock: the two
  identifiers and the time are parameters.
  \<^verbatim>\<open>const newSession = { id: sessionId, prompt: saved.prompt, timestamp: Date.now(),
      artifacts: [{ ...saved, id: generateId() }] };
  setSessions(prev => { const next = [...prev, newSession];
      setCurrentSessionIndex(next.length - 1); return next; });
  setFocusedArtifactIndex(0); setView('main');\<close>
\<close>

definition handleRestoreFromVault ::
  "string \<Rightarrow> string \<Rightarrow> nat \<Rightarrow> SavedArtifact \<Rightarrow> AppState \<Rightarrow> AppState" where
  "handleRestoreFromVault sessionId artifactId now saved st =
     st\<lparr>sessions :=
          sessions st @
            [\<lparr>session_id = sessionId, prompt = saved_prompt saved, timestamp = now,
              artifacts = [\<lparr>artifact_id = artifactId, styleName = styleName saved,
                            html = html saved, status = status saved\<rparr>]\<rparr>],
        currentSessionIndex := int (length (sessions st) + 1) - 1,
        focusedArtifactIndex := Some 0,
        view := MainView\<rparr>"

text \<open>
  \<^verbatim>\<open>const handleSaveArtifact = () => {
      const currentSession = sessions[currentSessionIndex];
      if (!currentSession || focusedArtifactIndex === null) return;
      const artifact = currentSession.artifacts[focusedArtifactIndex];
      if (savedArtifacts.some(s => s.id === artifact.id)) return;
      const toSave = { ...artifact, prompt: currentSession.prompt, savedAt: Date.now() };
      setSavedArtifacts(prev => [toSave, ...prev]);
  }\<close>
  The handler is a closure of one render: \<open>sessions\<close>, \<open>currentSessionIndex\<close>,
  \<open>focusedArtifactIndex\<close> and \<open>savedArtifacts\<close> are the values of that render, the state
  \<open>rendered\<close>, while the updater \<open>prev => [toSave, ...prev]\<close> runs on the vault of the state
  \<open>st\<close> at the time of the update. \<open>Date.now()\<close> is the parameter \<open>now\<close>. When the focused
  index is out of range, \<open>artifact\<close> is \<open>undefined\<close>: with a rendered vault that is not
  empty the callback of \<open>some\<close> runs and \<open>artifact.id\<close> raises a TypeError; with an empty one
  the callback never runs and the bare object \<open>{ prompt, savedAt }\<close> is stored.
\<close>

datatype failure = TypeError

definition handleSaveArtifact :: "nat \<Rightarrow> AppState \<Rightarrow> AppState \<Rightarrow> failure + AppState" where
  "handleSaveArtifact now rendered st =
     (case jsIndex (sessions rendered) (currentSessionIndex rendered) of
        None \<Rightarrow> Inr st
      | Some currentSession \<Rightarrow>
          (case focusedArtifactIndex rendered of
             None \<Rightarrow> Inr st
           | Some fi \<Rightarrow>
               (case nthOpt (artifacts currentSession) fi of
                  None \<Rightarrow>
                    if savedArtifacts rendered = []
                    then Inr (st\<lparr>savedArtifacts :=
                                   Bare (prompt currentSession) now # savedArtifacts st\<rparr>)
                    else Inl TypeError
                | Some artifact \<Rightarrow>
                    if list_ex (\<lambda>s. entryId s = Some (artifact_id artifact))
                         (savedArtifacts rendered)
                    then Inr st
                    else Inr (st\<lparr>savedArtifacts :=
                                   Entry \<lparr>artifact_id = artifact_id artifact,
                                          styleName = styleName artifact,
                                          html = html artifact, status = status artifact,
                                          saved_prompt = prompt currentSession, savedAt = now\<rparr>
                                   # savedArtifacts st\<rparr>))))"

text \<open>\<open>setSavedArtifacts(prev => prev.filter(s => s.id !== id))\<close>, for a string \<open>id\<close>.\<close>

definition handleRemoveFromVault :: "string \<Rightarrow> AppState \<Rightarrow> AppState" where
  "handleRemoveFromVault i st =
     st\<lparr>savedArtifacts := filter (\<lambda>s. entryId s \<noteq> Some i) (savedArtifacts st)\<rparr>"

definition vaultIds :: "AppState \<Rightarrow> string option list" where
  "vaultIds st = map entryId (savedArtifacts st)"

text \<open>
  The vault and local storage. After every render that changed \<open>savedArtifacts\<close> an effect
  runs \<open>localStorage.setItem('genfeatures_vault', JSON.stringify(savedArtifacts))\<close>; when
  the component mounts, an effect reads the item and, if there is one and it parses,
  calls \<open>setSavedArtifacts(JSON.parse(saved))\<close> with no look at what it holds. \<open>mount\<close> is
  the state after these effects, for the entries that the stored text holds (\<open>None\<close>: no
  item, or one that does not parse).
\<close>

definition mount :: "VaultEntry list option \<Rightarrow> AppState" where
  "mount stored =
     (case stored of None \<Rightarrow> initialState
      | Some vault \<Rightarrow> initialState\<lparr>savedArtifacts := vault\<rparr>)"

text \<open>
  Modelled from the spec: \<open>generateId\<close>, which the component imports from \<open>utils.ts\<close>, a
  file that is not among the sources. The data model of the specification calls the
  \<open>id\<close> of an artifact a unique identifier. The model numbers the calls of \<open>generateId\<close>
  and gives the call number \<open>n\<close> an identifier of its own, a tally of \<open>n + 1\<close> strokes, so
  that no identifier is returned twice.
\<close>

definition generateId :: "nat \<Rightarrow> string" where
  "generateId n = replicate (Suc n) (CHR ''i'')"

section \<open>Normalising the accumulated text\<close>

text \<open>
  A character stands for one code unit below 256. \<open>trim\<close>, \<open>trimStart\<close> and \<open>trimEnd\<close>
  remove white space and line terminators; below 256 these are TAB, LF, VT, FF, CR,
  SP and NBSP.
\<close>

definition isWhite :: "char \<Rightarrow> bool" where
  "isWhite c = (c \<in> {CHR 0x09, CHR 0x0A, CHR 0x0B, CHR 0x0C, CHR 0x0D, CHR 0x20, CHR 0xA0})"

definition trimStart :: "string \<Rightarrow> string" where
  "trimStart s = dropWhile isWhite s"

definition trimEnd :: "string \<Rightarrow> string" where
  "trimEnd s = rev (dropWhile isWhite (rev s))"

definition trim :: "string \<Rightarrow> string" where
  "trim s = trimEnd (trimStart s)"

definition startsWith :: "string \<Rightarrow> string \<Rightarrow> bool" where
  "startsWith s p = (take (length p) s = p)"

definition endsWith :: "string \<Rightarrow> string \<Rightarrow> bool" where
  "endsWith s p = (length p \<le> length s \<and> drop (length s - length p) s = p)"

text \<open>
  A text is trimmed at the start (at the end) when it is empty or its first (last)
  character is no white space.
\<close>

definition startOK :: "string \<Rightarrow> bool" where
  "startOK s = (s = [] \<or> \<not> isWhite (hd s))"

definition endOK :: "string \<Rightarrow> bool" where
  "endOK s = (s = [] \<or> \<not> isWhite (last s))"

text \<open>
  \<^verbatim>\<open>let finalHtml = accumulatedHtml.trim();
  if (finalHtml.startsWith('```html')) finalHtml = finalHtml.substring(7).trimStart();
  if (finalHtml.startsWith('```')) finalHtml = finalHtml.substring(3).trimStart();
  if (finalHtml.endsWith('```'))
      finalHtml = finalHtml.substring(0, finalHtml.length - 3).trimEnd();\<close>
  The status published with it is \<open>finalStatus finalHtml\<close>.
\<close>

definition normalizeHtml :: "string \<Rightarrow> string" where
  "normalizeHtml accumulatedHtml =
     (let f0 = trim accumulatedHtml;
          f1 = (if startsWith f0 ''```html'' then trimStart (drop 7 f0) else f0);
          f2 = (if startsWith f1 ''```'' then trimStart (drop 3 f1) else f1);
          f3 = (if endsWith f2 ''```'' then trimEnd (take (length f2 - 3) f2) else f2)
      in f3)"

text \<open>
  The normalisation as the specification words it, read as close to the code as the
  words allow: trim; strip a leading fence marker (\<open>```html\<close> or \<open>```\<close>) if present; strip
  a trailing fence marker if present; each strip also removes the white space it
  uncovers.
\<close>

definition specNormalize :: "string \<Rightarrow> string" where
  "specNormalize t =
     (let f0 = trim t;
          f1 = (if startsWith f0 ''```html'' then trimStart (drop 7 f0)
                else if startsWith f0 ''```'' then trimStart (drop 3 f0) else f0);
          f2 = (if endsWith f1 ''```'' then trimEnd (take (length f1 - 3) f1) else f1)
      in f2)"

section \<open>Resolving the direction labels\<close>

text \<open>
  \<open>styleText.match(/\[[\s\S]*\]/)\<close>: the leftmost match of a greedy pattern, that is the
  text from the first \<open>[\<close> to the last \<open>]\<close> after it, if there is one.
\<close>

definition matchArray :: "string \<Rightarrow> string option" where
  "matchArray text =
     (let rest = dropWhile (\<lambda>c. c \<noteq> CHR ''['') text in
      if rest = [] then None
      else let body = rev (dropWhile (\<lambda>c. c \<noteq> CHR '']'') (rev (tl rest))) in
           if body = [] then None else Some (CHR ''['' # body))"

definition fallbackStyles :: "string list" where
  "fallbackStyles = [''Modern Minimal'', ''High-Tech Dark'', ''Organic Flow'']"

text \<open>
  \<open>JSON.parse\<close> is a parameter: \<open>None\<close> when it throws. The matched text starts with
  \<open>[\<close>, so a value it parses to is an array; the code types it \<open>string[]\<close>.
  \<^verbatim>\<open>let generatedStyles = [];
  const styleText = styleResponse.text || '[]';
  const jsonMatch = styleText.match(/\[[\s\S]*\]/);
  if (jsonMatch) { try { generatedStyles = JSON.parse(jsonMatch[0]); } catch (e) { ... } }
  if (!generatedStyles || generatedStyles.length < 3) { generatedStyles = [...fallback]; }
  generatedStyles = generatedStyles.slice(0, 3);\<close>
\<close>

definition resolveStyles :: "(string \<Rightarrow> string list option) \<Rightarrow> string option \<Rightarrow> string list" where
  "resolveStyles parse responseText =
     (let styleText = (case responseText of None \<Rightarrow> ''[]''
                        | Some t \<Rightarrow> if t = [] then ''[]'' else t);
          generatedStyles =
            (case matchArray styleText of
               None \<Rightarrow> []
             | Some m \<Rightarrow> (case parse m of None \<Rightarrow> [] | Some ls \<Rightarrow> ls));
          generatedStyles' =
            (if length generatedStyles < 3 then fallbackStyles else generatedStyles)
      in take 3 generatedStyles')"

text \<open>
  \<^verbatim>\<open>setSessions(prev => prev.map(s => { if (s.id !== sessionId) return s;
      return {...s, artifacts: s.artifacts.map((art, i) =>
          ({...art, styleName: generatedStyles[i]}))}; }));\<close>
\<close>

definition applyStyles :: "string \<Rightarrow> string list \<Rightarrow> Session list \<Rightarrow> Session list" where
  "applyStyles sessionId generatedStyles prev =
     map (\<lambda>s. if session_id s \<noteq> sessionId then s
              else s\<lparr>artifacts :=
                     mapi (\<lambda>i art. art\<lparr>styleName := nthOpt generatedStyles i\<rparr>)
                          (artifacts s)\<rparr>) prev"

text \<open>
  The three placeholders of a new session,
  \<^verbatim>\<open>Array(3).fill(null).map((_, i) => ({ id: `${sessionId}_${i}`,
      styleName: 'Designing...', html: '', status: 'streaming' }))\<close>
\<close>

definition placeholderArtifacts :: "string \<Rightarrow> Artifact list" where
  "placeholderArtifacts sessionId =
     map (\<lambda>d. \<lparr>artifact_id = sessionId @ ''_'' @ [d], styleName = Some ''Designing...'',
               html = [], status = Streaming\<rparr>)
         [CHR ''0'', CHR ''1'', CHR ''2'']"

text \<open>
  The part of \<open>handleSendMessage\<close> that runs before the first \<open>await\<close>; \<open>Date.now()\<close> and
  \<open>generateId()\<close> are parameters, \<open>manualPrompt || inputValue\<close> takes the input when the
  manual prompt is missing or empty.
  \<^verbatim>\<open>const trimmedInput = promptToUse.trim();
  if (!trimmedInput || isLoading) return;
  if (!manualPrompt) setInputValue('');
  setIsLoading(true); setView('main');
  ...
  setSessions(prev => [...prev, newSession]);
  setCurrentSessionIndex(sessions.length);
  setFocusedArtifactIndex(null);\<close>
\<close>

definition handleSendMessageStart ::
  "string option \<Rightarrow> nat \<Rightarrow> string \<Rightarrow> AppState \<Rightarrow> AppState" where
  "handleSendMessageStart manualPrompt baseTime sessionId st =
     (let manual = (case manualPrompt of None \<Rightarrow> False | Some p \<Rightarrow> p \<noteq> []);
          promptToUse = (case manualPrompt of None \<Rightarrow> inputValue st
                         | Some p \<Rightarrow> if p \<noteq> [] then p else inputValue st);
          trimmedInput = trim promptToUse
      in if trimmedInput = [] \<or> isLoading st then st
         else st\<lparr>inputValue := (if manual then inputValue st else []),
                 isLoading := True,
                 view := MainView,
                 sessions := sessions st @
                   [\<lparr>session_id = sessionId, prompt = trimmedInput, timestamp = baseTime,
                     artifacts = placeholderArtifacts sessionId\<rparr>],
                 currentSessionIndex := int (length (sessions st)),
                 focusedArtifactIndex := None\<rparr>)"

text \<open>
  The selection as the specification words it: the first balanced array substring, from
  the first \<open>[\<close> to the \<open>]\<close> that closes it.
\<close>

fun closeBracket :: "nat \<Rightarrow> string \<Rightarrow> string \<Rightarrow> string option" where
  "closeBracket depth acc [] = None"
| "closeBracket depth acc (c # cs) =
     (if c = CHR ''['' then closeBracket (Suc depth) (c # acc) cs
      else if c = CHR '']'' then
        (case depth of 0 \<Rightarrow> Some (rev (c # acc))
                     | Suc d \<Rightarrow> closeBracket d (c # acc) cs)
      else closeBracket depth (c # acc) cs)"

definition firstBalancedArray :: "string \<Rightarrow> string option" where
  "firstBalancedArray text =
     (case dropWhile (\<lambda>c. c \<noteq> CHR ''['') text of
        [] \<Rightarrow> None
      | c # rest \<Rightarrow> closeBracket 0 [c] rest)"

definition specResolveStyles :: "(string \<Rightarrow> string list option) \<Rightarrow> string \<Rightarrow> string list" where
  "specResolveStyles parse text =
     (case firstBalancedArray text of
        None \<Rightarrow> fallbackStyles
      | Some m \<Rightarrow>
          (case parse m of
             None \<Rightarrow> fallbackStyles
           | Some ls \<Rightarrow> if length ls < 3 then fallbackStyles else take 3 ls))"

text \<open>
  \<open>JSON.parse\<close> on the texts of one example: the array text parses to its three labels;
  an array followed by more text is a syntax error.
\<close>

definition exampleParse :: "string \<Rightarrow> string list option" where
  \<open>exampleParse s = (if s = ''["A","B","C"]'' then Some [''A'', ''B'', ''C''] else None)\<close>

section \<open>The stream JSON extractor\<close>

text \<open>\<open>buffer.indexOf(c, from)\<close>; \<open>None\<close> stands for \<open>-1\<close>.\<close>

fun indexFrom :: "char \<Rightarrow> nat \<Rightarrow> string \<Rightarrow> nat option" where
  "indexFrom c i [] = None"
| "indexFrom c i (x # xs) = (if x = c then Some i else indexFrom c (Suc i) xs)"

definition indexOf :: "string \<Rightarrow> char \<Rightarrow> nat \<Rightarrow> nat option" where
  "indexOf buffer c from = indexFrom c from (drop from buffer)"

text \<open>
  The inner loop, at index \<open>i\<close> with the characters from \<open>i\<close> on:
  \<^verbatim>\<open>for (let i = start; i < buffer.length; i++) {
      if (buffer[i] === '{') braceCount++;
      else if (buffer[i] === '}') braceCount--;
      if (braceCount === 0 && i > start) { end = i; break; }
  }\<close>
\<close>

fun scanClose :: "nat \<Rightarrow> nat \<Rightarrow> int \<Rightarrow> string \<Rightarrow> nat option" where
  "scanClose start i braceCount [] = None"
| "scanClose start i braceCount (c # cs) =
     (let braceCount' = (if c = CHR ''{'' then braceCount + 1
                         else if c = CHR ''}'' then braceCount - 1 else braceCount)
      in if braceCount' = 0 \<and> i > start then Some i
         else scanClose start (Suc i) braceCount' cs)"

definition findEnd :: "string \<Rightarrow> nat \<Rightarrow> nat option" where
  "findEnd buffer start = scanClose start start 0 (drop start buffer)"

definition substring :: "string \<Rightarrow> nat \<Rightarrow> nat \<Rightarrow> string" where
  "substring s a b = take (b - a) (drop a s)"

lemma indexFrom_bounds: "indexFrom c i xs = Some k \<Longrightarrow> i \<le> k \<and> k < i + length xs"
  by (induction xs arbitrary: i) (fastforce split: if_splits)+

lemma indexOf_bounds: "indexOf buffer c from = Some k \<Longrightarrow> from \<le> k \<and> k < length buffer"
  unfolding indexOf_def by (drule indexFrom_bounds) (cases "from \<le> length buffer"; simp)

lemma scanClose_bounds: "scanClose start i bc cs = Some e \<Longrightarrow> i \<le> e \<and> e < i + length cs"
  by (induction cs arbitrary: i bc) (fastforce simp: Let_def split: if_splits)+

lemma findEnd_bounds: "findEnd buffer start = Some e \<Longrightarrow> start \<le> e \<and> e < length buffer"
  unfolding findEnd_def by (drule scanClose_bounds) (cases "start \<le> length buffer"; simp)

text \<open>
  The body of \<open>for await\<close> after \<open>buffer += text\<close>, from \<open>start = buffer.indexOf('{')\<close>
  on. \<open>JSON.parse\<close> is a parameter, \<open>None\<close> when it throws. The result holds the values
  yielded, in order, and the buffer left.
  \<^verbatim>\<open>while (start !== -1) {
      braceCount = 0; let end = -1;
      for (...) {...}
      if (end !== -1) {
          const jsonString = buffer.substring(start, end + 1);
          try { yield JSON.parse(jsonString);
                buffer = buffer.substring(end + 1); start = buffer.indexOf('{');
          } catch (e) { start = buffer.indexOf('{', start + 1); }
      } else { break; }
  }\<close>
\<close>

function extractLoop :: "(string \<Rightarrow> 'j option) \<Rightarrow> string \<Rightarrow> nat option \<Rightarrow> 'j list \<times> string" where
  "extractLoop parse buffer None = ([], buffer)"
| "extractLoop parse buffer (Some start) =
     (case findEnd buffer start of
        None \<Rightarrow> ([], buffer)
      | Some e \<Rightarrow>
          (case parse (substring buffer start (e + 1)) of
             Some v \<Rightarrow>
               (case extractLoop parse (drop (e + 1) buffer)
                       (indexOf (drop (e + 1) buffer) (CHR ''{'') 0) of
                  (out, b) \<Rightarrow> (v # out, b))
           | None \<Rightarrow> extractLoop parse buffer (indexOf buffer (CHR ''{'') (start + 1))))"
  by pat_completeness auto
termination
proof (relation "measures [\<lambda>(p, b, s). length b,
                           \<lambda>(p, b, s). case s of None \<Rightarrow> 0 | Some k \<Rightarrow> length b - k]")
  show "wf (measures [\<lambda>(p, b, s). length b,
                      \<lambda>(p :: string \<Rightarrow> 'j option, b, s). case s of None \<Rightarrow> 0 | Some k \<Rightarrow> length b - k])"
    by simp
next
  fix parse :: "string \<Rightarrow> 'j option" and buffer start e v
  assume "findEnd buffer start = Some e"
  then show "((parse, drop (e + 1) buffer, indexOf (drop (e + 1) buffer) (CHR ''{'') 0),
              (parse, buffer, Some start))
             \<in> measures [\<lambda>(p, b, s). length b,
                          \<lambda>(p, b, s). case s of None \<Rightarrow> 0 | Some k \<Rightarrow> length b - k]"
    by (auto dest: findEnd_bounds)
next
  fix parse :: "string \<Rightarrow> 'j option" and buffer start e
  assume "findEnd buffer start = Some e"
  then have "start < length buffer"
    by (auto dest: findEnd_bounds)
  then show "((parse, buffer, indexOf buffer (CHR ''{'') (start + 1)),
              (parse, buffer, Some start))
             \<in> measures [\<lambda>(p, b, s). length b,
                          \<lambda>(p, b, s). case s of None \<Rightarrow> 0 | Some k \<Rightarrow> length b - k]"
    by (auto split: option.splits dest: indexOf_bounds)
qed

text \<open>
  One chunk of the stream: \<open>chunk.text\<close> that is not a string (\<open>None\<close>) is skipped.
\<close>

definition consumeChunk ::
  "(string \<Rightarrow> 'j option) \<Rightarrow> string \<Rightarrow> string option \<Rightarrow> 'j list \<times> string" where
  "consumeChunk parse buffer chunk =
     (case chunk of
        None \<Rightarrow> ([], buffer)
      | Some text \<Rightarrow> extractLoop parse (buffer @ text) (indexOf (buffer @ text) (CHR ''{'') 0))"

text \<open>
  The generator over a finite stream: the values yielded while each chunk is consumed,
  chunk by chunk, and the buffer when the stream ends.
\<close>

fun runStream ::
  "(string \<Rightarrow> 'j option) \<Rightarrow> string \<Rightarrow> string option list \<Rightarrow> 'j list list \<times> string" where
  "runStream parse buffer [] = ([], buffer)"
| "runStream parse buffer (chunk # chunks) =
     (case consumeChunk parse buffer chunk of
        (out, buffer') \<Rightarrow>
          (case runStream parse buffer' chunks of
             (outs, final) \<Rightarrow> (out # outs, final)))"

text \<open>
  \<open>parseJsonStream\<close> starts from the empty buffer; the buffer left at the end of the
  stream is dropped.
\<close>

definition parseJsonStream :: "(string \<Rightarrow> 'j option) \<Rightarrow> string option list \<Rightarrow> 'j list list" where
  "parseJsonStream parse chunks = fst (runStream parse [] chunks)"

text \<open>A text in fences, with white space around the fences and around the content.\<close>

definition exampleInner :: string where
  "exampleInner = [CHR 0x0A] @ ''<div>X</div>'' @ [CHR 0x0A]"

definition exampleFenced :: string where
  "exampleFenced = '' ```html'' @ exampleInner @ ''``` ''"

definition exampleTwice :: string where
  "exampleTwice = [CHR 0x0A] @ ''```html'' @ [CHR 0x0A] @ ''```'' @ exampleInner @ ''```'' @ '' ''"

subsection \<open>Texts the extractor is run on\<close>

text \<open>
  The brace depth of a text counts \<open>{\<close> up and \<open>}\<close> down, as the inner loop does. A text
  never closes when each of its prefixes that is not empty has a positive depth. The
  text of an object starts with \<open>{\<close>, and its depth returns to zero at its last character
  and not before: that holds of every JSON object whose strings hold no brace, since
  its braces are then those that open and close objects.
\<close>

fun braceDepth :: "string \<Rightarrow> int" where
  "braceDepth [] = 0"
| "braceDepth (c # cs) =
     (if c = CHR ''{'' then 1 else if c = CHR ''}'' then - 1 else 0) + braceDepth cs"

definition neverCloses :: "string \<Rightarrow> bool" where
  "neverCloses p = list_all (\<lambda>n. 0 < braceDepth (take n p)) [1..<Suc (length p)]"

definition closedObject :: "string \<Rightarrow> bool" where
  "closedObject s =
     (s \<noteq> [] \<and> hd s = CHR ''{'' \<and> braceDepth s = 0 \<and> neverCloses (butlast s))"

text \<open>
  A sequence of objects serialised to text: before each object's text stands a
  separator (\<open>[\<close>, a comma, white space, nothing), and each object has the value
  \<open>JSON.parse\<close> gives for its text. A sequence is well formed when no separator holds a
  \<open>{\<close>, every object text is one, and \<open>parse\<close> maps it to its value.
\<close>

type_synonym 'j item = "string \<times> string \<times> 'j"

fun layout :: "'j item list \<Rightarrow> string" where
  "layout [] = []"
| "layout ((sep, s, v) # rest) = sep @ s @ layout rest"

definition wellFormed :: "(string \<Rightarrow> 'j option) \<Rightarrow> 'j item list \<Rightarrow> bool" where
  "wellFormed parse items =
     list_all (\<lambda>(sep, s, v). CHR ''{'' \<notin> set sep \<and> closedObject s \<and> parse s = Some v) items"

text \<open>
  JSON values and their compact text, as \<open>JSON.stringify\<close> writes it. A number carries
  its digits and a string the text between its quotes, escapes included. A value is
  brace free when no string, key or number in it holds a brace. A text is nested when
  its depth ends at zero and none of its prefixes falls below zero. The items of an
  array are its values, the first behind \<open>[\<close>, the others behind a comma.
\<close>

datatype json = JNull | JBool bool | JNum string | JStr string | JArr "json list"
  | JObj "(string \<times> json) list"

fun joinComma :: "string list \<Rightarrow> string" where
  "joinComma [] = []"
| "joinComma [x] = x"
| "joinComma (x # y # ys) = x @ '','' @ joinComma (y # ys)"

definition quoted :: "string \<Rightarrow> string" where
  "quoted s = [CHR 0x22] @ s @ [CHR 0x22]"

fun render :: "json \<Rightarrow> string" where
  "render JNull = ''null''"
| "render (JBool b) = (if b then ''true'' else ''false'')"
| "render (JNum digits) = digits"
| "render (JStr body) = quoted body"
| "render (JArr xs) = ''['' @ joinComma (map render xs) @ '']''"
| "render (JObj kvs) =
     ''{'' @ joinComma (map (\<lambda>kv. quoted (fst kv) @ '':'' @ render (snd kv)) kvs) @ ''}''"

definition noBrace :: "string \<Rightarrow> bool" where
  "noBrace s = (CHR ''{'' \<notin> set s \<and> CHR ''}'' \<notin> set s)"

fun braceFree :: "json \<Rightarrow> bool" where
  "braceFree JNull = True"
| "braceFree (JBool b) = True"
| "braceFree (JNum digits) = noBrace digits"
| "braceFree (JStr body) = noBrace body"
| "braceFree (JArr xs) = list_all braceFree xs"
| "braceFree (JObj kvs) = list_all (\<lambda>kv. noBrace (fst kv) \<and> braceFree (snd kv)) kvs"

definition nested :: "string \<Rightarrow> bool" where
  "nested s = (braceDepth s = 0 \<and> (\<forall>n. 0 \<le> braceDepth (take n s)))"

fun itemsWith :: "string \<Rightarrow> json list \<Rightarrow> json item list" where
  "itemsWith sep [] = []"
| "itemsWith sep (v # vs) = (sep, render v, v) # itemsWith '','' vs"

definition isObject :: "json \<Rightarrow> bool" where
  "isObject v = (case v of JObj kvs \<Rightarrow> True | _ \<Rightarrow> False)"

text \<open>
  The values of the objects whose closing brace is among the first \<open>n\<close> characters of the
  text, and what of these \<open>n\<close> characters follows the last such object.
\<close>

fun emittedWithin :: "'j item list \<Rightarrow> nat \<Rightarrow> 'j list" where
  "emittedWithin [] n = []"
| "emittedWithin ((sep, s, v) # rest) n =
     (if length sep + length s \<le> n
      then v # emittedWithin rest (n - (length sep + length s)) else [])"

fun residue :: "'j item list \<Rightarrow> string \<Rightarrow> nat \<Rightarrow> string" where
  "residue [] tail n = take n tail"
| "residue ((sep, s, v) # rest) tail n =
     (if length sep + length s \<le> n
      then residue rest tail (n - (length sep + length s)) else take n (sep @ s))"

text \<open>The text a list of chunks carries.\<close>

definition streamText :: "string option list \<Rightarrow> string" where
  "streamText chunks = concat (map (\<lambda>c. case c of None \<Rightarrow> [] | Some t \<Rightarrow> t) chunks)"

text \<open>
  An array of two objects, cut into three fragments inside its tokens, and a stream that
  ends inside its second object. \<open>JSON.parse\<close> on the two object texts gives their one
  member.
\<close>

definition exampleObjParse :: "string \<Rightarrow> (string \<times> nat) option" where
  \<open>exampleObjParse s =
     (if s = ''{"a":1}'' then Some (''a'', 1)
      else if s = ''{"b":2}'' then Some (''b'', 2) else None)\<close>

definition exampleItems :: "(string \<times> nat) item list" where
  \<open>exampleItems = [(''['', ''{"a":1}'', (''a'', 1)), ('','', ''{"b":2}'', (''b'', 2))]\<close>

definition exampleChunks :: "string option list" where
  \<open>exampleChunks = [Some ''[{"a"'', Some '':1},{"b":2'', Some ''}]'']\<close>

definition exampleOpenItems :: "(string \<times> nat) item list" where
  \<open>exampleOpenItems = [(''['', ''{"a":1}'', (''a'', 1))]\<close>

definition exampleOpenChunks :: "string option list" where
  \<open>exampleOpenChunks = [Some ''[{"a":1},{"b":{"c"'', Some '':2}'']\<close>

text \<open>
  A stream that ends inside an object, in a string that starts with \<open>}\<close>. Of the texts
  the extractor hands to \<open>JSON.parse\<close> in this run, \<open>{"b":1}\<close> parses to its one member;
  the other, \<open>{"a":{"b":1},"c":"}\<close>, ends inside a string and does not parse.
\<close>

definition truncatedParse :: "string \<Rightarrow> (string \<times> nat) option" where
  \<open>truncatedParse s = (if s = ''{"b":1}'' then Some (''b'', 1) else None)\<close>

definition truncatedChunks :: "string option list" where
  \<open>truncatedChunks = [Some ''[{"a":{"b":1},'', Some ''"c":"}'']\<close>

section \<open>A batch of three generations\<close>

text \<open>
  \<open>generateArtifact\<close> awaits one streaming request and then every chunk of its stream.
  What the service does for one request is a script: the \<open>chunk.text\<close> values it delivers
  (\<open>None\<close> for one that is no string) and whether the request or the stream then throws.
  \<^verbatim>\<open>const generateArtifact = async (artifact, styleInstruction) => {
      try {
          const responseStream = await ai.models.generateContentStream({...});
          let accumulatedHtml = '';
          for await (const chunk of responseStream) {
              const text = chunk.text;
              if (typeof text === 'string') {
                  accumulatedHtml += text;
                  setSessions(prev => ...html: accumulatedHtml...);
              }
          }
          let finalHtml = accumulatedHtml.trim(); ...
          setSessions(prev => ...html: finalHtml, status: finalHtml ? 'complete' : 'error'...);
      } catch (e) { console.error('Error generating artifact:', e); }
  };\<close>
  Between two awaits the function runs alone, so one step of a generation is: take the
  next chunk and publish the increment; or, at the end of the stream, publish the final
  text; or, where the stream throws, run the \<open>catch\<close> block, which logs. In the last two
  cases the promise of \<open>generateArtifact\<close> is fulfilled: the \<open>try\<close> spans the whole body.
\<close>

type_synonym script = "string option list \<times> bool"

datatype Outcome = Fulfilled | Rejected

datatype Task = Running string "string option list" bool | Settled Outcome

definition startTask :: "script \<Rightarrow> Task" where
  "startTask sc = Running [] (fst sc) (snd sc)"

fun stepTask :: "string \<Rightarrow> string \<Rightarrow> Task \<Rightarrow> Session list \<Rightarrow> Task \<times> Session list" where
  "stepTask sessionId artifactId (Running accumulatedHtml (chunk # rest) fails) prev =
     (case chunk of
        Some text \<Rightarrow>
          (Running (accumulatedHtml @ text) rest fails,
           publishIncrement sessionId artifactId (accumulatedHtml @ text) prev)
      | None \<Rightarrow> (Running accumulatedHtml rest fails, prev))"
| "stepTask sessionId artifactId (Running accumulatedHtml [] fails) prev =
     (if fails then (Settled Fulfilled, prev)
      else (Settled Fulfilled,
            publishFinal sessionId artifactId (normalizeHtml accumulatedHtml) prev))"
| "stepTask sessionId artifactId (Settled outcome) prev = (Settled outcome, prev)"

definition isSettled :: "Task \<Rightarrow> bool" where
  "isSettled t = (case t of Settled outcome \<Rightarrow> True | Running acc rest fails \<Rightarrow> False)"

text \<open>
  \<open>Promise.all\<close>: rejected as soon as one promise is rejected, fulfilled when all are
  fulfilled, pending (\<open>None\<close>) otherwise.
\<close>

definition promiseAll :: "Task list \<Rightarrow> Outcome option" where
  "promiseAll tasks =
     (if list_ex (\<lambda>t. t = Settled Rejected) tasks then Some Rejected
      else if list_all (\<lambda>t. t = Settled Fulfilled) tasks then Some Fulfilled
      else None)"

text \<open>
  \<^verbatim>\<open>try { ...
      await Promise.all(placeholderArtifacts.map((art, i) =>
          generateArtifact(art, generatedStyles[i])));
  } catch (e) { console.error("Fatal error in generation process", e); }
  finally { setIsLoading(false); }\<close>
  One step of the batch lets generation \<open>i\<close> take its step; once \<open>Promise.all\<close> is settled,
  fulfilled or rejected, the \<open>finally\<close> block clears \<open>isLoading\<close>. A run of the batch
  follows a schedule, the order in which the three generations take their steps.
\<close>

definition batchStep :: "string \<Rightarrow> nat \<Rightarrow> Task list \<times> AppState \<Rightarrow> Task list \<times> AppState" where
  "batchStep sessionId i state =
     (case state of (tasks, st) \<Rightarrow>
        if i < length tasks then
          (case stepTask sessionId (artifact_id (placeholderArtifacts sessionId ! i))
                  (tasks ! i) (sessions st) of
             (task', sessions') \<Rightarrow>
               (tasks[i := task'],
                if promiseAll (tasks[i := task']) = None then st\<lparr>sessions := sessions'\<rparr>
                else st\<lparr>sessions := sessions', isLoading := False\<rparr>))
        else (tasks, st))"

definition runBatch ::
  "string \<Rightarrow> nat list \<Rightarrow> Task list \<times> AppState \<Rightarrow> Task list \<times> AppState" where
  "runBatch sessionId schedule state = foldl (\<lambda>s i. batchStep sessionId i s) state schedule"

text \<open>
  The batch starts in a state whose session \<open>k\<close> has the id of the batch and, under the
  ids of the three placeholders, three artifacts with empty \<open>html\<close> and status
  \<open>streaming\<close>, and whose \<open>isLoading\<close> is set.
\<close>

definition batchReady :: "string \<Rightarrow> nat \<Rightarrow> AppState \<Rightarrow> bool" where
  "batchReady sessionId k st =
     (k < length (sessions st) \<and> session_id (sessions st ! k) = sessionId \<and>
      map artifact_id (artifacts (sessions st ! k)) =
        map artifact_id (placeholderArtifacts sessionId) \<and>
      list_all (\<lambda>a. html a = [] \<and> status a = Streaming) (artifacts (sessions st ! k)) \<and>
      isLoading st)"

text \<open>
  What one generation has come to after \<open>n\<close> of its steps, what its artifact then shows,
  and the change one step makes to the artifact.
\<close>

definition taskAfter :: "script \<Rightarrow> nat \<Rightarrow> Task" where
  "taskAfter sc n =
     (if n \<le> length (fst sc)
      then Running (streamText (take n (fst sc))) (drop n (fst sc)) (snd sc)
      else Settled Fulfilled)"

definition artifactView :: "script \<Rightarrow> Task \<Rightarrow> Artifact \<Rightarrow> Artifact" where
  "artifactView sc t a0 =
     (case t of
        Running acc rest fails \<Rightarrow> a0\<lparr>html := acc\<rparr>
      | Settled outcome \<Rightarrow>
          if snd sc then a0\<lparr>html := streamText (fst sc)\<rparr>
          else a0\<lparr>html := normalizeHtml (streamText (fst sc)),
                  status := finalStatus (normalizeHtml (streamText (fst sc)))\<rparr>)"

fun stepPatch :: "Task \<Rightarrow> Artifact \<Rightarrow> Artifact" where
  "stepPatch (Running acc (Some text # rest) fails) = (\<lambda>art. art\<lparr>html := acc @ text\<rparr>)"
| "stepPatch (Running acc (None # rest) fails) = (\<lambda>art. art)"
| "stepPatch (Running acc [] fails) =
     (if fails then (\<lambda>art. art)
      else (\<lambda>art. art\<lparr>html := normalizeHtml acc, status := finalStatus (normalizeHtml acc)\<rparr>))"
| "stepPatch (Settled outcome) = (\<lambda>art. art)"

definition batchTasks :: "script list \<Rightarrow> (nat \<Rightarrow> nat) \<Rightarrow> Task list" where
  "batchTasks scripts steps = map (\<lambda>i. taskAfter (scripts ! i) (steps i)) [0..<3]"

definition batchView :: "script list \<Rightarrow> (nat \<Rightarrow> nat) \<Rightarrow> Artifact list \<Rightarrow> Artifact list" where
  "batchView scripts steps arts =
     map (\<lambda>i. artifactView (scripts ! i) (taskAfter (scripts ! i) (steps i)) (arts ! i)) [0..<3]"

text \<open>
  Three scripts: two streams that end, around one that breaks after its first chunk.
\<close>

definition exampleScripts :: "script list" where
  "exampleScripts =
     [([Some ''<p>a'', Some ''</p>''], False), ([Some ''<p>b''], True),
      ([Some ''<p>c</p>''], False)]"

section \<open>Reachable states\<close>

text \<open>
  The states the component reaches. \<open>reachable stored n st\<close>: with the saved artifacts
  \<open>stored\<close> in local storage when the component first mounts (\<open>None\<close>: no item), the state
  \<open>st\<close> is reached, and the calls of \<open>generateId\<close> made on the way returned identifiers
  \<open>generateId k\<close> with \<open>k < n\<close>. React
  renders after every event, so a handler runs in the closure of the state it is
  pressed in. A reload mounts the component again on what the last render stored. The
  cards of the current session are the ones that can be clicked; the groups of the
  other sessions carry the classes \<open>past-session\<close> and \<open>future-session\<close>. The handles run
  \<open>nextItem\<close> and \<open>prevItem\<close> where they are rendered. A running generation replaces
  \<open>sessions\<close> by the updates of \<open>generateArtifact\<close> and of the direction labels;
  \<open>isLoading\<close> and the drawer are set by \<open>handleSendMessage\<close>, \<open>handleGenerateVariations\<close>,
  \<open>handleShowCode\<close> and the drawer's close button, \<open>view\<close> by the buttons of the top bar
  and of the pages, \<open>isFullscreen\<close> by \<open>handleToggleFullscreen\<close>. \<open>handleRestoreFromVault\<close>
  takes the session id from one call of \<open>generateId\<close> and the artifact id from the next.
\<close>

inductive reachable :: "SavedArtifact list option \<Rightarrow> nat \<Rightarrow> AppState \<Rightarrow> bool" where
  initial: "reachable stored 0 (mount (map_option (map Entry) stored))"
| reload: "reachable stored n st \<Longrightarrow> reachable stored n (mount (Some (savedArtifacts st)))"
| inputChange: "reachable stored n st \<Longrightarrow> reachable stored n (st\<lparr>inputValue := text\<rparr>)"
| sendMessage:
    "reachable stored n st \<Longrightarrow>
     reachable stored (Suc n) (handleSendMessageStart manualPrompt baseTime (generateId n) st)"
| streamIncrement:
    "reachable stored n st \<Longrightarrow>
     reachable stored n (st\<lparr>sessions := publishIncrement sessionId artifactId h (sessions st)\<rparr>)"
| streamFinal:
    "reachable stored n st \<Longrightarrow>
     reachable stored n (st\<lparr>sessions := publishFinal sessionId artifactId h (sessions st)\<rparr>)"
| stylesUpdate:
    "reachable stored n st \<Longrightarrow>
     reachable stored n (st\<lparr>sessions := applyStyles sessionId styles (sessions st)\<rparr>)"
| loading: "reachable stored n st \<Longrightarrow> reachable stored n (st\<lparr>isLoading := b\<rparr>)"
| drawer: "reachable stored n st \<Longrightarrow> reachable stored n (st\<lparr>drawerState := d\<rparr>)"
| viewChange: "reachable stored n st \<Longrightarrow> reachable stored n (st\<lparr>view := v\<rparr>)"
| fullscreen:
    "reachable stored n st \<Longrightarrow> reachable stored n (st\<lparr>isFullscreen := \<not> isFullscreen st\<rparr>)"
| advance: "reachable stored n st \<Longrightarrow> reachable stored n (advance st)"
| retreat: "reachable stored n st \<Longrightarrow> reachable stored n (retreat st)"
| focus:
    "reachable stored n st \<Longrightarrow> jsIndex (sessions st) (currentSessionIndex st) = Some cs \<Longrightarrow>
     aIndex < length (artifacts cs) \<Longrightarrow> reachable stored n (focusArtifact aIndex st)"
| unfocus: "reachable stored n st \<Longrightarrow> reachable stored n (gridView st)"
| reset: "reachable stored n st \<Longrightarrow> reachable stored n (handleGoHome st)"
| variation: "reachable stored n st \<Longrightarrow> reachable stored n (applyVariation h st)"
| save:
    "reachable stored n st \<Longrightarrow> handleSaveArtifact now st st = Inr st' \<Longrightarrow>
     reachable stored n st'"
| remove: "reachable stored n st \<Longrightarrow> reachable stored n (handleRemoveFromVault i st)"
| restore:
    "reachable stored n st \<Longrightarrow> Entry saved \<in> set (savedArtifacts st) \<Longrightarrow>
     reachable stored (Suc (Suc n))
       (handleRestoreFromVault (generateId n) (generateId (Suc n)) now saved st)"

section \<open>Invariants of the reachable states\<close>

text \<open>
  The shape of a history is the number of artifacts of each of its sessions; the
  updates of a generation and of a variation keep it. A session has at most three
  artifacts: three placeholders, or the one artifact of a restore.
\<close>

definition shape :: "Session list \<Rightarrow> nat list" where
  "shape ss = map (\<lambda>s. length (artifacts s)) ss"

definition smallSessions :: "AppState \<Rightarrow> bool" where
  "smallSessions st = list_all (\<lambda>l. l \<le> 3) (shape (sessions st))"

definition inRange :: "AppState \<Rightarrow> bool" where
  "inRange st = (focusInRange st \<and> smallSessions st)"

text \<open>A vault is typed when each of its entries has an id, so none is a bare object.\<close>

definition typedVault :: "AppState \<Rightarrow> bool" where
  "typedVault st = list_all (\<lambda>e. entryId e \<noteq> None) (savedArtifacts st)"





section \<open>Example states\<close>

definition exampleSession :: Session where
  "exampleSession =
     \<lparr>session_id = ''s1'', prompt = ''a pricing card'', timestamp = 1,
      artifacts = placeholderArtifacts ''s1''\<rparr>"

definition exampleFocused :: AppState where
  "exampleFocused =
     initialState\<lparr>sessions := [exampleSession], currentSessionIndex := 0,
                  focusedArtifactIndex := Some 1,
                  drawerState := \<lparr>isOpen = True, mode = Some VariationsMode,
                                  title = ''Variations''\<rparr>\<rparr>"

text \<open>The state after a prompt is sent, for a session id \<open>s1\<close>.\<close>

definition traceStart :: AppState where
  "traceStart = handleSendMessageStart (Some ''a pricing card'') 1 ''s1'' initialState"

text \<open>
  A run from an empty local storage: a prompt is sent, the first card is focused and
  saved, the vault is opened and the saved entry is restored.
\<close>

definition runSent :: AppState where
  "runSent = handleSendMessageStart (Some ''a pricing card'') 1 (generateId 0) initialState"

definition runFocused :: AppState where
  "runFocused = focusArtifact 0 runSent"

definition runEntry :: SavedArtifact where
  "runEntry =
     \<lparr>artifact_id = ''i_0'', styleName = Some ''Designing...'', html = [],
      status = Streaming, saved_prompt = ''a pricing card'', savedAt = 2\<rparr>"

definition runSaved :: AppState where
  "runSaved = runFocused\<lparr>savedArtifacts := [Entry runEntry]\<rparr>"

definition runVault :: AppState where
  "runVault = runSaved\<lparr>view := VaultView\<rparr>"

definition runRestored :: AppState where
  "runRestored = handleRestoreFromVault (generateId 1) (generateId 2) 3 runEntry runVault"

section \<open>Facts about the helpers\<close>

lemma length_mapi: "length (mapi f xs) = length xs"
  by (simp add: mapi_def)

lemma nth_mapi: "i < length xs \<Longrightarrow> mapi f xs ! i = f i (xs ! i)"
  by (simp add: mapi_def nth_enumerate_eq)

lemma mapi_at:
  "mapi (\<lambda>i x. if i = c then g x else x) xs = (if c < length xs then xs[c := g (xs ! c)] else xs)"
  by (rule nth_equalityI) (auto simp: length_mapi nth_mapi nth_list_update)

lemma mapi_at_int:
  "mapi (\<lambda>i x. if int i = int c then g x else x) xs =
     (if c < length xs then xs[c := g (xs ! c)] else xs)"
  using mapi_at [of c g xs] by simp

lemma patchArtifacts_absent:
  "sessionId \<notin> session_id ` set prev \<Longrightarrow> patchArtifacts sessionId artifactId f prev = prev"
  unfolding patchArtifacts_def by (induction prev) auto

lemma patchArtifacts_commute:
  assumes "a1 \<noteq> a2"
    and "\<And>art. artifact_id (f art) = artifact_id art"
    and "\<And>art. artifact_id (g art) = artifact_id art"
  shows "patchArtifacts s a1 f (patchArtifacts s a2 g prev) =
         patchArtifacts s a2 g (patchArtifacts s a1 f prev)"
  using assms unfolding patchArtifacts_def by (auto simp: comp_def)

lemma patchArtifacts_both:
  assumes "a1 \<noteq> a2"
  shows "patchArtifacts s a1 (\<lambda>art. art\<lparr>html := h1\<rparr>)
           (patchArtifacts s a2 (\<lambda>art. art\<lparr>html := h2\<rparr>) prev) =
     map (\<lambda>sess. if session_id sess = s
                 then sess\<lparr>artifacts :=
                        map (\<lambda>art. if artifact_id art = a1 then art\<lparr>html := h1\<rparr>
                                   else if artifact_id art = a2 then art\<lparr>html := h2\<rparr> else art)
                            (artifacts sess)\<rparr>
                 else sess) prev"
  using assms unfolding patchArtifacts_def by (auto simp: comp_def)

lemma eraseHtml_patch:
  "eraseHtml (patchArtifacts s a (\<lambda>art. art\<lparr>html := h\<rparr>) prev) = eraseHtml prev"
  unfolding eraseHtml_def patchArtifacts_def
  by (induction prev) (auto simp: comp_def intro!: map_cong Session.equality)


subsection \<open>Navigation\<close>

text \<open>
  The focus stays in range and the sessions small under every step: the handles run
  \<open>nextItem\<close> and \<open>prevItem\<close> only where they are shown, a click focuses a card of the
  current session, a restore focuses the one artifact of the session it adds.
\<close>

lemma jsIndex_map: "jsIndex (map f xs) i = map_option f (jsIndex xs i)"
  by (simp add: jsIndex_def)


lemma focusInRange_iff:
  "focusInRange st \<longleftrightarrow>
     (\<forall>fi. focusedArtifactIndex st = Some fi \<longrightarrow>
        (\<exists>cs. jsIndex (sessions st) (currentSessionIndex st) = Some cs \<and>
              fi < length (artifacts cs)))"
  by (simp add: focusInRange_def split: option.splits)

lemma focusInRange_shape:
  "focusInRange st \<longleftrightarrow>
     (\<forall>fi. focusedArtifactIndex st = Some fi \<longrightarrow>
        (\<exists>l. jsIndex (shape (sessions st)) (currentSessionIndex st) = Some l \<and> fi < l))"
  by (auto simp add: focusInRange_iff shape_def jsIndex_map)

lemma shape_patchArtifacts: "shape (patchArtifacts s a f prev) = shape prev"
  by (simp add: shape_def patchArtifacts_def comp_def)

lemma shape_applyStyles: "shape (applyStyles s styles prev) = shape prev"
  by (simp add: shape_def applyStyles_def comp_def length_mapi)

lemma shape_mapi_sessions:
  "shape (mapi (\<lambda>i sess. if P i then sess\<lparr>artifacts := mapi (g i) (artifacts sess)\<rparr> else sess) ss)
     = shape ss"
  unfolding shape_def
  by (rule nth_equalityI) (simp_all add: length_mapi nth_mapi)

lemma shape_applyVariation: "shape (sessions (applyVariation h st)) = shape (sessions st)"
  unfolding applyVariation_def
  by (cases "focusedArtifactIndex st") (simp_all add: shape_mapi_sessions)

lemma inRange_cong:
  assumes "inRange st" and "shape (sessions st') = shape (sessions st)"
    and "currentSessionIndex st' = currentSessionIndex st"
    and "focusedArtifactIndex st' = focusedArtifactIndex st"
  shows "inRange st'"
  using assms by (simp add: inRange_def focusInRange_shape smallSessions_def)

lemma inRange_mount: "inRange (mount stored)"
  by (simp add: inRange_def focusInRange_iff smallSessions_def mount_def initialState_def shape_def
      split: option.splits)

lemma inRange_send:
  "inRange st \<Longrightarrow> inRange (handleSendMessageStart manualPrompt baseTime sessionId st)"
  by (simp add: inRange_def focusInRange_iff smallSessions_def handleSendMessageStart_def Let_def
      shape_def placeholderArtifacts_def)

lemma inRange_advance: "inRange st \<Longrightarrow> inRange (advance st)"
  by (auto simp: inRange_def smallSessions_def focusInRange_iff advance_def canGoForward_def
      nextItem_def split: option.splits)

lemma inRange_retreat: "inRange st \<Longrightarrow> inRange (retreat st)"
  by (auto simp: inRange_def smallSessions_def focusInRange_iff retreat_def canGoBack_def
      prevItem_def split: option.splits)

lemma inRange_focus:
  "inRange st \<Longrightarrow> jsIndex (sessions st) (currentSessionIndex st) = Some cs \<Longrightarrow>
   aIndex < length (artifacts cs) \<Longrightarrow> inRange (focusArtifact aIndex st)"
  by (simp add: inRange_def smallSessions_def focusInRange_iff focusArtifact_def)

lemma inRange_grid: "inRange st \<Longrightarrow> inRange (gridView st)"
  by (simp add: inRange_def smallSessions_def focusInRange_iff gridView_def)

lemma inRange_home: "inRange (handleGoHome st)"
  by (simp add: inRange_def smallSessions_def focusInRange_iff handleGoHome_def shape_def)

lemma inRange_save: "inRange st \<Longrightarrow> handleSaveArtifact now r st = Inr st' \<Longrightarrow> inRange st'"
  by (auto simp: handleSaveArtifact_def inRange_def smallSessions_def focusInRange_iff
      split: option.splits if_splits)

lemma inRange_remove: "inRange st \<Longrightarrow> inRange (handleRemoveFromVault i st)"
  by (simp add: inRange_def smallSessions_def focusInRange_iff handleRemoveFromVault_def)

lemma inRange_restore:
  "inRange st \<Longrightarrow> inRange (handleRestoreFromVault sessionId artifactId now saved st)"
  by (simp add: inRange_def smallSessions_def focusInRange_iff handleRestoreFromVault_def
      jsIndex_def shape_def)

lemma reachable_inRange: "reachable stored n st \<Longrightarrow> inRange st"
proof (induction rule: reachable.induct)
  case (streamIncrement stored n st sessionId artifactId h)
  then show ?case
    by (elim inRange_cong) (simp_all add: publishIncrement_def shape_patchArtifacts)
next
  case (streamFinal stored n st sessionId artifactId h)
  then show ?case
    by (elim inRange_cong) (simp_all add: publishFinal_def shape_patchArtifacts)
next
  case (stylesUpdate stored n st sessionId styles)
  then show ?case
    by (elim inRange_cong) (simp_all add: shape_applyStyles)
next
  case (variation stored n st h)
  then show ?case
    by (elim inRange_cong)
      (simp_all add: shape_applyVariation, simp_all add: applyVariation_def split: option.splits)
next
  case (save stored n st now st')
  then show ?case by (auto intro: inRange_save)
qed (simp_all add: inRange_mount inRange_send inRange_advance inRange_retreat inRange_focus
    inRange_grid inRange_home inRange_remove inRange_restore,
    (erule inRange_cong; simp)+)

text \<open>
  No bare entry is ever stored: every entry of a reachable vault is a \<open>SavedArtifact\<close>,
  one that the rule \<open>restore\<close> covers.
\<close>

lemma typedVault_save:
  assumes "typedVault st" and "focusInRange st" and "handleSaveArtifact now st st = Inr st'"
  shows "typedVault st'"
  using assms unfolding handleSaveArtifact_def focusInRange_iff nthOpt_def typedVault_def
  by (auto split: option.splits if_splits)

lemma reachable_typed: "reachable stored n st \<Longrightarrow> typedVault st"
proof (induction rule: reachable.induct)
  case (initial stored)
  then show ?case
    by (cases stored) (simp_all add: typedVault_def mount_def initialState_def list_all_iff)
next
  case (save stored n st now st')
  then show ?case
    using reachable_inRange [of stored n st] by (auto intro: typedVault_save simp: inRange_def)
next
  case (advance stored n st)
  then show ?case
    by (simp add: typedVault_def advance_def nextItem_def split: option.splits)
next
  case (retreat stored n st)
  then show ?case
    by (simp add: typedVault_def retreat_def prevItem_def split: option.splits)
next
  case (sendMessage stored n st manualPrompt baseTime)
  then show ?case
    by (simp add: typedVault_def handleSendMessageStart_def Let_def)
next
  case (variation stored n st h)
  then show ?case
    by (simp add: typedVault_def applyVariation_def split: option.splits)
next
  case (remove stored n st i)
  then show ?case
    by (simp add: typedVault_def handleRemoveFromVault_def list_all_iff)
qed (simp_all add: typedVault_def mount_def initialState_def focusArtifact_def gridView_def
    handleGoHome_def handleRestoreFromVault_def)

lemma typed_entry:
  assumes "typedVault st" and "e \<in> set (savedArtifacts st)"
  shows "\<exists>saved. e = Entry saved"
  using assms by (cases e) (auto simp: typedVault_def list_all_iff)


subsection \<open>The vault\<close>













lemma some_id_iff:
  "list_ex (\<lambda>s. entryId s = Some a) vault \<longleftrightarrow> Some a \<in> set (map entryId vault)"
  by (induction vault) auto















text \<open>
  The handler tests the vault of its render. Run twice in the closure of one render,
  the second time on the state the first run has left, it stores the artifact twice.
  React renders between two clicks, so no step of \<open>reachable\<close> does that.
\<close>

lemma save_stale:
  assumes "jsIndex (sessions r) (currentSessionIndex r) = Some cs"
    and "focusedArtifactIndex r = Some fi"
    and "nthOpt (artifacts cs) fi = Some art"
    and "Some (artifact_id art) \<notin> set (vaultIds r)"
  shows "handleSaveArtifact now' r (projr (handleSaveArtifact now r r)) =
     Inr (r\<lparr>savedArtifacts :=
            Entry \<lparr>artifact_id = artifact_id art, styleName = styleName art, html = html art,
               status = status art, saved_prompt = prompt cs, savedAt = now'\<rparr>
            # Entry \<lparr>artifact_id = artifact_id art, styleName = styleName art, html = html art,
               status = status art, saved_prompt = prompt cs, savedAt = now\<rparr>
            # savedArtifacts r\<rparr>)"
  using assms unfolding handleSaveArtifact_def vaultIds_def some_id_iff by simp

subsection \<open>The example run\<close>

lemma trim_example: "trim ''a pricing card'' = ''a pricing card''"
  by (simp add: trim_def trimStart_def trimEnd_def isWhite_def)

lemma traceStart_eq:
  "traceStart =
     initialState\<lparr>isLoading := True, sessions := [exampleSession], currentSessionIndex := 0\<rparr>"
  by (simp add: traceStart_def handleSendMessageStart_def trim_example Let_def
      initialState_def exampleSession_def)

lemma runSent_eq:
  "runSent =
     initialState\<lparr>isLoading := True,
       sessions := [\<lparr>session_id = ''i'', prompt = ''a pricing card'', timestamp = 1,
                     artifacts = placeholderArtifacts ''i''\<rparr>],
       currentSessionIndex := 0\<rparr>"
  by (simp add: runSent_def handleSendMessageStart_def trim_example Let_def
      initialState_def generateId_def)






lemma runRestored_eq:
  "runRestored =
     initialState\<lparr>isLoading := True,
       sessions := [\<lparr>session_id = ''i'', prompt = ''a pricing card'', timestamp = 1,
                     artifacts = placeholderArtifacts ''i''\<rparr>,
         \<lparr>session_id = ''ii'', prompt = ''a pricing card'', timestamp = 3,
          artifacts = [\<lparr>artifact_id = ''iii'', styleName = Some ''Designing...'', html = [],
                        status = Streaming\<rparr>]\<rparr>],
       currentSessionIndex := 1, focusedArtifactIndex := Some 0,
       savedArtifacts := [Entry runEntry]\<rparr>"
  by (simp add: runRestored_def runVault_def runSaved_def runFocused_def runSent_eq
      handleRestoreFromVault_def focusArtifact_def initialState_def runEntry_def
      generateId_def numeral_2_eq_2)

text \<open>
  \<open>nextItem\<close> on its own compares the focus with the constant 2, not with the number of
  artifacts. In the restored session of one artifact it would move the focus out of
  range; there \<open>canGoForward\<close> is false and the handle that runs it is not rendered.
\<close>

lemma nextItem_not_guarded:
  "canGoForward runRestored = False \<and> focusedArtifactIndex (nextItem runRestored) = Some 1 \<and>
   focusInRange (nextItem runRestored) = False"
  by (simp add: runRestored_eq nextItem_def jsIndex_def canGoForward_def initialState_def
      focusInRange_def)

subsection \<open>Trimming and fences\<close>

lemma fence_not_white: "\<not> isWhite (CHR 0x60)"
  by (simp add: isWhite_def)

lemma trimStart_append_nonwhite:
  "ys \<noteq> [] \<Longrightarrow> \<not> isWhite (hd ys) \<Longrightarrow> trimStart (xs @ ys) = trimStart xs @ ys"
  unfolding trimStart_def by (induction xs) (auto simp: neq_Nil_conv)

lemma dropWhile_nonwhite_hd: "zs \<noteq> [] \<Longrightarrow> \<not> P (hd zs) \<Longrightarrow> dropWhile P zs = zs"
  by (cases zs) auto

lemma trimEnd_prepend_nonwhite:
  assumes "xs \<noteq> []" and "\<not> isWhite (last xs)"
  shows "trimEnd (xs @ ys) = xs @ trimEnd ys"
proof -
  have "dropWhile isWhite (rev xs) = rev xs"
    using assms by (intro dropWhile_nonwhite_hd) (simp_all add: hd_rev)
  then show ?thesis
    unfolding trimEnd_def by (simp add: dropWhile_append)
qed

lemma trimEnd_prefix: "s = trimEnd s @ rev (takeWhile isWhite (rev s))"
  unfolding trimEnd_def by (metis rev_append rev_rev_ident takeWhile_dropWhile_id)

lemma startsWith_append:
  assumes "startsWith s (p @ q)"
  shows "startsWith s p"
proof -
  from assms have "take (length (p @ q)) s = p @ q"
    by (simp add: startsWith_def)
  then have "take (length p) (take (length (p @ q)) s) = take (length p) (p @ q)"
    by simp
  then show ?thesis
    by (simp add: startsWith_def min_def)
qed

lemma startsWith_html_fence: "startsWith s ''```html'' \<Longrightarrow> startsWith s ''```''"
  using startsWith_append [of s "''```''" "''html''"] by simp

lemma startsWith_append_self: "startsWith (p @ r) p"
  by (simp add: startsWith_def)

lemma endsWith_append_self: "endsWith (r @ p) p"
  by (simp add: endsWith_def)

lemma normalize_no_fence:
  assumes "\<not> startsWith (trim t) ''```''" and "\<not> endsWith (trim t) ''```''"
  shows "normalizeHtml t = trim t"
  using assms startsWith_html_fence [of "trim t"] by (auto simp add: normalizeHtml_def Let_def)

lemma normalize_spec:
  assumes "\<not> (startsWith (trim t) ''```html'' \<and>
              startsWith (trimStart (drop 7 (trim t))) ''```'')"
  shows "normalizeHtml t = specNormalize t"
  using assms startsWith_html_fence [of "trim t"]
  by (auto simp add: normalizeHtml_def specNormalize_def Let_def)

text \<open>A text that starts with the fence only once the fence is appended to it.\<close>

lemma short_fence_prefix:
  assumes "startsWith (body @ ''```'') ''```''" and "\<not> startsWith body ''```''"
  shows "body = [] \<or> body = ''`'' \<or> body = ''``''"
proof -
  have l: "length body < Suc (Suc (Suc 0))"
  proof (rule ccontr)
    assume "\<not> length body < Suc (Suc (Suc 0))"
    then have "take (Suc (Suc (Suc 0))) (body @ ''```'') = take (Suc (Suc (Suc 0))) body"
      by simp
    with assms show False
      by (simp add: startsWith_def)
  qed
  from assms(1) have t: "take (Suc (Suc (Suc 0))) (body @ ''```'') = ''```''"
    by (simp add: startsWith_def)
  show ?thesis
  proof (cases body)
    case Nil
    then show ?thesis by simp
  next
    case (Cons a r)
    note c1 = this
    show ?thesis
    proof (cases r)
      case Nil
      with c1 t show ?thesis by simp
    next
      case (Cons b r')
      with c1 l have "r' = []" by simp
      with c1 Cons t show ?thesis by simp
    qed
  qed
qed

lemma startsWith_fence_trimEnd: "startsWith (trimEnd b) ''```'' \<longleftrightarrow> startsWith b ''```''"
proof
  assume a: "startsWith (trimEnd b) ''```''"
  obtain ws where b: "b = trimEnd b @ ws"
    using trimEnd_prefix [of b] ..
  from a have "take (length ''```'') (trimEnd b) = ''```''"
    by (simp add: startsWith_def)
  then have "take (length ''```'') (trimEnd b @ ws) = ''```''"
    by (metis append_eq_conv_conj append.assoc append_take_drop_id)
  with b show "startsWith b ''```''"
    by (simp add: startsWith_def)
next
  assume "startsWith b ''```''"
  then have "b = ''```'' @ drop 3 b"
    by (metis append_take_drop_id startsWith_def length_Cons list.size(3) numeral_3_eq_3)
  then have "trimEnd b = ''```'' @ trimEnd (drop 3 b)"
    by (metis trimEnd_prepend_nonwhite fence_not_white last.simps list.distinct(1))
  then show "startsWith (trimEnd b) ''```''"
    by (simp add: startsWith_def)
qed

lemma normalize_html_wrapped:
  assumes t: "trim t = ''```html'' @ inner @ ''```''"
    and n: "\<not> startsWith (trim inner) ''```''"
  shows "normalizeHtml t = trim inner"
proof -
  define body where "body = trimStart inner"
  have f1: "trimStart (inner @ ''```'') = body @ ''```''"
    unfolding body_def by (rule trimStart_append_nonwhite) (simp_all add: fence_not_white)
  have s0: "startsWith (trim t) ''```html''"
    unfolding t by (rule startsWith_append_self)
  have d: "drop 7 (trim t) = inner @ ''```''"
    unfolding t by simp
  have tb: "trim inner = trimEnd body"
    by (simp add: trim_def body_def)
  have nb: "\<not> startsWith body ''```''"
    using n unfolding tb by (simp add: startsWith_fence_trimEnd)
  show ?thesis
  proof (cases "startsWith (body @ ''```'') ''```''")
    case True
    with nb have "body = [] \<or> body = ''`'' \<or> body = ''``''"
      by (intro short_fence_prefix)
    then show ?thesis
      using s0 d f1 tb
      by (auto simp add: normalizeHtml_def Let_def startsWith_def endsWith_def trimStart_def
          trimEnd_def fence_not_white)
  next
    case False
    have e: "endsWith (body @ ''```'') ''```''"
      by (rule endsWith_append_self)
    show ?thesis
      using s0 d f1 tb False e by (simp add: normalizeHtml_def Let_def)
  qed
qed

lemma normalize_plain_wrapped:
  assumes t: "trim t = ''```'' @ inner @ ''```''"
    and n: "\<not> startsWith (inner @ ''```'') ''html''"
  shows "normalizeHtml t = trim inner"
proof -
  define body where "body = trimStart inner"
  have f1: "trimStart (inner @ ''```'') = body @ ''```''"
    unfolding body_def by (rule trimStart_append_nonwhite) (simp_all add: fence_not_white)
  have s0: "\<not> startsWith (trim t) ''```html''"
    using n unfolding t by (simp add: startsWith_def)
  have s1: "startsWith (trim t) ''```''"
    unfolding t by (rule startsWith_append_self)
  have d: "drop 3 (trim t) = inner @ ''```''"
    unfolding t by simp
  have tb: "trim inner = trimEnd body"
    by (simp add: trim_def body_def)
  have e: "endsWith (body @ ''```'') ''```''"
    by (rule endsWith_append_self)
  show ?thesis
    using s0 s1 d f1 tb e by (simp add: normalizeHtml_def Let_def)
qed

text \<open>Two leading markers, \<open>```html\<close> and, after white space only, \<open>```\<close>: both are stripped.\<close>

lemma trimStart_white: "list_all isWhite w \<Longrightarrow> trimStart (w @ s) = trimStart s"
  unfolding trimStart_def by (induction w) auto

lemma double_lead:
  assumes t: "trim t = ''```html'' @ w @ ''```'' @ rest" and w: "list_all isWhite w"
  shows "startsWith (trim t) ''```html''"
    and "trimStart (drop 7 (trim t)) = ''```'' @ rest"
proof -
  show "startsWith (trim t) ''```html''"
    unfolding t by (rule startsWith_append_self)
  have "drop 7 (trim t) = w @ ''```'' @ rest"
    unfolding t by simp
  then show "trimStart (drop 7 (trim t)) = ''```'' @ rest"
    using trimStart_white [OF w, of "''```'' @ rest"]
    by (simp add: trimStart_def fence_not_white)
qed

lemma normalize_double_lead:
  assumes t: "trim t = ''```html'' @ w @ ''```'' @ rest" and w: "list_all isWhite w"
    and e: "\<not> endsWith (trimStart rest) ''```''"
  shows "normalizeHtml t = trimStart rest"
  using double_lead [OF t w] e
  by (simp add: normalizeHtml_def Let_def
      startsWith_append_self [of "''```''" rest, simplified])

lemma normalize_double_wrapped:
  assumes t: "trim t = ''```html'' @ w @ ''```'' @ inner @ ''```''" and w: "list_all isWhite w"
  shows "normalizeHtml t = trim inner"
proof -
  define body where "body = trimStart inner"
  have f2: "trimStart (inner @ ''```'') = body @ ''```''"
    unfolding body_def by (rule trimStart_append_nonwhite) (simp_all add: fence_not_white)
  have tb: "trim inner = trimEnd body"
    by (simp add: trim_def body_def)
  have e: "endsWith (body @ ''```'') ''```''"
    by (rule endsWith_append_self)
  show ?thesis
    using double_lead [OF t w] f2 tb e
    by (simp add: normalizeHtml_def Let_def
        startsWith_append_self [of "''```''" "inner @ ''```''", simplified])
qed

lemma startOK_dropWhile: "startOK (dropWhile isWhite s)"
  unfolding startOK_def by (induction s) auto

lemma startOK_trimStart: "startOK (trimStart s)"
  unfolding trimStart_def by (rule startOK_dropWhile)

lemma endOK_trimEnd: "endOK (trimEnd s)"
  using startOK_dropWhile [of "rev s"]
  unfolding endOK_def startOK_def trimEnd_def by (auto simp: last_rev)

lemma endOK_drop: "endOK s \<Longrightarrow> endOK (drop n s)"
  unfolding endOK_def by auto

lemma endOK_dropWhile: "endOK s \<Longrightarrow> endOK (dropWhile P s)"
  unfolding endOK_def by (induction s) (auto split: if_splits)

lemma startOK_take: "startOK s \<Longrightarrow> startOK (take n s)"
  unfolding startOK_def by (cases s; cases n) auto

lemma startOK_trimEnd:
  assumes "startOK s"
  shows "startOK (trimEnd s)"
proof -
  have "trimEnd s = take (length (trimEnd s)) s"
    using trimEnd_prefix [of s] by (metis append_eq_conv_conj)
  then show ?thesis
    using startOK_take [OF assms] by metis
qed

lemma trim_fixed: "startOK s \<Longrightarrow> endOK s \<Longrightarrow> trim s = s"
  unfolding startOK_def endOK_def trim_def trimStart_def trimEnd_def
  by (cases "s = []") (simp_all add: dropWhile_nonwhite_hd hd_rev)

lemma normalize_trimmed: "trim (normalizeHtml t) = normalizeHtml t"
proof -
  define f0 where "f0 = trim t"
  define f1 where "f1 = (if startsWith f0 ''```html'' then trimStart (drop 7 f0) else f0)"
  define f2 where "f2 = (if startsWith f1 ''```'' then trimStart (drop 3 f1) else f1)"
  define f3 where
    "f3 = (if endsWith f2 ''```'' then trimEnd (take (length f2 - 3) f2) else f2)"
  have n: "normalizeHtml t = f3"
    by (simp add: normalizeHtml_def Let_def f0_def f1_def f2_def f3_def)
  have 0: "startOK f0 \<and> endOK f0"
    unfolding f0_def trim_def by (simp add: endOK_trimEnd startOK_trimEnd startOK_trimStart)
  have 1: "startOK f1 \<and> endOK f1"
    using 0 unfolding f1_def
    by (simp add: startOK_trimStart) (simp add: trimStart_def endOK_dropWhile endOK_drop)
  have 2: "startOK f2 \<and> endOK f2"
    using 1 unfolding f2_def
    by (simp add: startOK_trimStart) (simp add: trimStart_def endOK_dropWhile endOK_drop)
  have 3: "startOK f3 \<and> endOK f3"
    using 2 unfolding f3_def by (simp add: endOK_trimEnd startOK_trimEnd startOK_take)
  show ?thesis
    unfolding n using 3 by (simp add: trim_fixed)
qed

lemma publishFinal_at:
  assumes "k < length prev" and "session_id (prev ! k) = s"
    and "j < length (artifacts (prev ! k))" and "artifact_id (artifacts (prev ! k) ! j) = a"
  shows "artifacts (publishFinal s a h prev ! k) ! j =
           (artifacts (prev ! k) ! j)\<lparr>html := h, status := finalStatus h\<rparr>"
  using assms by (simp add: publishFinal_def patchArtifacts_def)

subsection \<open>Direction labels\<close>

lemma matchArray_none: "CHR ''['' \<notin> set text \<Longrightarrow> matchArray text = None"
proof -
  assume "CHR ''['' \<notin> set text"
  then have "dropWhile (\<lambda>c. c \<noteq> CHR ''['') text = []"
    by auto
  then show ?thesis
    by (simp add: matchArray_def)
qed

lemma dropWhile_upto: "c \<notin> set pre \<Longrightarrow> dropWhile (\<lambda>x. x \<noteq> c) (pre @ c # r) = c # r"
  by (induction pre) auto

lemma matchArray_unclosed:
  assumes "CHR ''['' \<notin> set pre" and "CHR '']'' \<notin> set rest"
  shows "matchArray (pre @ ''['' @ rest) = None"
proof -
  have "dropWhile (\<lambda>c. c \<noteq> CHR ''['') (pre @ ''['' @ rest) = CHR ''['' # rest"
    using assms(1) dropWhile_upto [of "CHR ''[''" pre rest] by simp
  moreover have "dropWhile (\<lambda>c. c \<noteq> CHR '']'') (rev rest) = []"
    using assms(2) by auto
  ultimately show ?thesis
    by (simp add: matchArray_def)
qed

lemma matchArray_span:
  assumes "CHR ''['' \<notin> set pre" and "CHR '']'' \<notin> set post"
  shows "matchArray (pre @ ''['' @ mid @ '']'' @ post) = Some (''['' @ mid @ '']'')"
proof -
  have 1: "dropWhile (\<lambda>c. c \<noteq> CHR ''['') (pre @ ''['' @ mid @ '']'' @ post) =
        CHR ''['' # (mid @ '']'' @ post)"
    using assms(1) dropWhile_upto [of "CHR ''[''" pre "mid @ '']'' @ post"] by simp
  have "dropWhile (\<lambda>c. c \<noteq> CHR '']'') (rev post @ CHR '']'' # rev mid) = CHR '']'' # rev mid"
    using assms(2) by (intro dropWhile_upto) simp
  then have 2: "rev (dropWhile (\<lambda>c. c \<noteq> CHR '']'') (rev (mid @ '']'' @ post))) = mid @ '']''"
    by simp
  show ?thesis
    unfolding matchArray_def 1 Let_def using 2 by simp
qed

lemma length_resolveStyles: "length (resolveStyles parse r) = 3"
  by (simp add: resolveStyles_def Let_def fallbackStyles_def)

lemma resolveStyles_span:
  assumes "CHR ''['' \<notin> set pre" and "CHR '']'' \<notin> set post"
  shows "resolveStyles parse (Some (pre @ ''['' @ mid @ '']'' @ post)) =
     (case parse (''['' @ mid @ '']'') of
        None \<Rightarrow> fallbackStyles
      | Some ls \<Rightarrow> if length ls < 3 then fallbackStyles else take 3 ls)"
  using matchArray_span [OF assms, of mid]
  by (simp add: resolveStyles_def Let_def fallbackStyles_def split: option.splits)

lemma resolveStyles_nomatch:
  assumes "t \<noteq> []" and "matchArray t = None"
  shows "resolveStyles parse (Some t) = fallbackStyles"
  using assms by (simp add: resolveStyles_def Let_def fallbackStyles_def)

lemma resolveStyles_empty:
  assumes "r = None \<or> r = Some []" and "parse ''[]'' = Some []"
  shows "resolveStyles parse r = fallbackStyles"
proof -
  have "matchArray ''[]'' = Some ''[]''"
    by (simp add: matchArray_def)
  then show ?thesis
    using assms by (auto simp add: resolveStyles_def Let_def fallbackStyles_def)
qed

lemma applyStyles_at:
  assumes "k < length prev"
  shows "applyStyles sid styles prev ! k =
     (if session_id (prev ! k) \<noteq> sid then prev ! k
      else (prev ! k)\<lparr>artifacts :=
             mapi (\<lambda>i art. art\<lparr>styleName := nthOpt styles i\<rparr>) (artifacts (prev ! k))\<rparr>)"
  using assms by (simp add: applyStyles_def)

lemma mapi_placeholders:
  "mapi (\<lambda>i art. art\<lparr>styleName := nthOpt [l0, l1, l2] i\<rparr>) (placeholderArtifacts sid) =
     [\<lparr>artifact_id = sid @ ''_0'', styleName = Some l0, html = [], status = Streaming\<rparr>,
      \<lparr>artifact_id = sid @ ''_1'', styleName = Some l1, html = [], status = Streaming\<rparr>,
      \<lparr>artifact_id = sid @ ''_2'', styleName = Some l2, html = [], status = Streaming\<rparr>]"
  by (simp add: placeholderArtifacts_def mapi_def nthOpt_def enumerate_eq_zip upt_rec)

subsection \<open>The extractor\<close>

lemma braceDepth_append: "braceDepth (a @ b) = braceDepth a + braceDepth b"
  by (induction a) auto

lemma neverCloses_iff: "neverCloses p \<longleftrightarrow> (\<forall>n. 0 < n \<and> n \<le> length p \<longrightarrow> 0 < braceDepth (take n p))"
  unfolding neverCloses_def list_all_iff by (auto simp: Suc_le_eq less_Suc_eq_le)

lemma neverCloses_take: "neverCloses p \<Longrightarrow> neverCloses (take m p)"
  unfolding neverCloses_iff by (auto simp: min_def)

lemma neverCloses_hd: "neverCloses p \<Longrightarrow> p \<noteq> [] \<Longrightarrow> hd p = CHR ''{''"
  unfolding neverCloses_iff by (cases p) (auto dest!: spec [of _ 1] split: if_splits)

lemma scanClose_step:
  "scanClose start i bc (c # cs) =
     (if bc + braceDepth [c] = 0 \<and> start < i then Some i
      else scanClose start (Suc i) (bc + braceDepth [c]) cs)"
  by (simp add: Let_def)

lemma braceDepth_Cons: "braceDepth (c # cs) = braceDepth [c] + braceDepth cs"
  by simp

lemma scan_pass:
  "(\<And>n. 0 < n \<Longrightarrow> n \<le> length p \<Longrightarrow> bc + braceDepth (take n p) \<noteq> 0) \<Longrightarrow>
   scanClose start i bc (p @ q) = scanClose start (i + length p) (bc + braceDepth p) q"
proof (induction p arbitrary: i bc)
  case Nil
  then show ?case by simp
next
  case (Cons c p)
  have 1: "bc + braceDepth [c] \<noteq> 0"
    using Cons.prems [of 1] by simp
  have 2: "\<And>n. 0 < n \<Longrightarrow> n \<le> length p \<Longrightarrow> (bc + braceDepth [c]) + braceDepth (take n p) \<noteq> 0"
  proof -
    fix n assume "0 < n" "n \<le> length p"
    then have "bc + braceDepth (take (Suc n) (c # p)) \<noteq> 0"
      by (intro Cons.prems) simp_all
    then show "(bc + braceDepth [c]) + braceDepth (take n p) \<noteq> 0"
      by (simp add: add.assoc)
  qed
  have "scanClose start i bc ((c # p) @ q) = scanClose start (Suc i) (bc + braceDepth [c]) (p @ q)"
    using 1 by (simp only: append_Cons scanClose_step) simp
  also have "\<dots> = scanClose start (Suc i + length p) ((bc + braceDepth [c]) + braceDepth p) q"
    using 2 by (rule Cons.IH)
  finally show ?case
    by (simp add: add.assoc)
qed

lemma closedObject_length: "closedObject s \<Longrightarrow> 2 \<le> length s"
  unfolding closedObject_def by (cases s; cases "tl s") auto

lemma findEnd_closed:
  assumes "closedObject s"
  shows "findEnd (pre @ s @ rest) (length pre) = Some (length pre + length s - 1)"
proof -
  have l: "2 \<le> length s" using assms by (rule closedObject_length)
  then have s: "s = butlast s @ [last s]" by (cases s rule: rev_cases) auto
  have nc: "neverCloses (butlast s)" and d0: "braceDepth s = 0"
    using assms by (simp_all add: closedObject_def)
  have p: "\<And>n. 0 < n \<Longrightarrow> n \<le> length (butlast s) \<Longrightarrow> 0 + braceDepth (take n (butlast s)) \<noteq> 0"
    using nc unfolding neverCloses_iff by fastforce
  have "findEnd (pre @ s @ rest) (length pre) =
        scanClose (length pre) (length pre) 0 (butlast s @ (last s # rest))"
    unfolding findEnd_def using s by (metis append.assoc append_Cons append_Nil append_eq_conv_conj)
  also have "\<dots> = scanClose (length pre) (length pre + length (butlast s))
                     (0 + braceDepth (butlast s)) (last s # rest)"
    using p by (rule scan_pass)
  also have "\<dots> = Some (length pre + length (butlast s))"
  proof -
    have "braceDepth (butlast s) + braceDepth [last s] = 0"
      using d0 s braceDepth_append [of "butlast s" "[last s]"] by simp
    moreover have "length pre < length pre + length (butlast s)"
      using l by simp
    ultimately show ?thesis by (simp only: scanClose_step add_0) simp
  qed
  finally show ?thesis using l by simp
qed

lemma findEnd_open:
  assumes "neverCloses p"
  shows "findEnd (pre @ p) (length pre) = None"
proof -
  have p: "\<And>n. 0 < n \<Longrightarrow> n \<le> length p \<Longrightarrow> 0 + braceDepth (take n p) \<noteq> 0"
    using assms unfolding neverCloses_iff by fastforce
  have "findEnd (pre @ p) (length pre) = scanClose (length pre) (length pre) 0 (p @ [])"
    unfolding findEnd_def by simp
  also have "\<dots> = scanClose (length pre) (length pre + length p) (0 + braceDepth p) []"
    using p by (rule scan_pass)
  finally show ?thesis by simp
qed

lemma indexFrom_found: "c \<notin> set sep \<Longrightarrow> indexFrom c i (sep @ c # r) = Some (i + length sep)"
  by (induction sep arbitrary: i) auto

lemma indexFrom_absent: "c \<notin> set xs \<Longrightarrow> indexFrom c i xs = None"
  by (induction xs arbitrary: i) auto

lemma indexOf_found: "c \<notin> set sep \<Longrightarrow> indexOf (sep @ c # r) c 0 = Some (length sep)"
  by (simp add: indexOf_def indexFrom_found)

lemma indexOf_absent: "c \<notin> set xs \<Longrightarrow> indexOf xs c 0 = None"
  by (simp add: indexOf_def indexFrom_absent)

lemma extract_object:
  assumes sep: "CHR ''{'' \<notin> set sep" and s: "closedObject s" and v: "parse s = Some v"
  shows "extractLoop parse (sep @ s @ rest) (indexOf (sep @ s @ rest) (CHR ''{'') 0) =
     (case extractLoop parse rest (indexOf rest (CHR ''{'') 0) of (out, b) \<Rightarrow> (v # out, b))"
proof -
  obtain s' where s': "s = CHR ''{'' # s'"
    using s unfolding closedObject_def by (cases s) auto
  have l: "2 \<le> length s" using s by (rule closedObject_length)
  have i: "indexOf (sep @ s @ rest) (CHR ''{'') 0 = Some (length sep)"
    unfolding s' using indexOf_found [OF sep] by simp
  have e: "findEnd (sep @ s @ rest) (length sep) = Some (length sep + length s - 1)"
    using s by (rule findEnd_closed)
  have sub: "substring (sep @ s @ rest) (length sep) (length sep + length s - 1 + 1) = s"
    using l by (simp add: substring_def)
  have d: "drop (length sep + length s - 1 + 1) (sep @ s @ rest) = rest"
    using l by simp
  show ?thesis
    unfolding i by (subst extractLoop.simps) (simp only: e sub d v option.case)
qed

lemma extract_open:
  assumes sep: "CHR ''{'' \<notin> set sep" and p: "neverCloses p"
  shows "extractLoop parse (sep @ p) (indexOf (sep @ p) (CHR ''{'') 0) = ([], sep @ p)"
proof (cases p)
  case Nil
  then show ?thesis using sep by (simp add: indexOf_absent)
next
  case (Cons c p')
  then have "c = CHR ''{''" using neverCloses_hd [OF p] by simp
  then have i: "indexOf (sep @ p) (CHR ''{'') 0 = Some (length sep)"
    unfolding Cons using indexOf_found [OF sep] by simp
  have e: "findEnd (sep @ p) (length sep) = None"
    using p by (rule findEnd_open)
  show ?thesis unfolding i by (subst extractLoop.simps) (simp only: e option.case)
qed

lemma closedObject_take:
  assumes "closedObject s" and "m < length s"
  shows "neverCloses (take m s)"
proof -
  have "neverCloses (butlast s)" using assms(1) by (simp add: closedObject_def)
  then have "neverCloses (take m (butlast s))" by (rule neverCloses_take)
  moreover have "take m (butlast s) = take m s"
    using assms(2) by (simp add: take_butlast)
  ultimately show ?thesis by simp
qed

lemma wellFormed_Cons:
  "wellFormed parse ((sep, s, v) # rest) \<longleftrightarrow>
     CHR ''{'' \<notin> set sep \<and> closedObject s \<and> parse s = Some v \<and> wellFormed parse rest"
  by (simp add: wellFormed_def)

lemma extract_prefix:
  assumes "wellFormed parse items" and "CHR ''{'' \<notin> set tsep" and "neverCloses tp"
  shows "extractLoop parse (take n (layout items @ tsep @ tp))
           (indexOf (take n (layout items @ tsep @ tp)) (CHR ''{'') 0) =
         (emittedWithin items n, residue items (tsep @ tp) n)"
  using assms(1)
proof (induction items arbitrary: n)
  case Nil
  have "CHR ''{'' \<notin> set (take n tsep)"
    using assms(2) by (auto dest: in_set_takeD)
  moreover have "neverCloses (take (n - length tsep) tp)"
    using assms(3) by (rule neverCloses_take)
  ultimately show ?case
    using extract_open [of "take n tsep" "take (n - length tsep) tp" parse] by simp
next
  case (Cons item items)
  obtain sep s v where item: "item = (sep, s, v)" by (cases item)
  from Cons.prems have sep: "CHR ''{'' \<notin> set sep" and s: "closedObject s"
    and v: "parse s = Some v" and w: "wellFormed parse items"
    unfolding item wellFormed_Cons by simp_all
  show ?case
  proof (cases "length sep + length s \<le> n")
    case True
    then have t: "take n (layout (item # items) @ tsep @ tp) =
        sep @ s @ take (n - (length sep + length s)) (layout items @ tsep @ tp)"
      unfolding item by simp
    have "extractLoop parse (take n (layout (item # items) @ tsep @ tp))
            (indexOf (take n (layout (item # items) @ tsep @ tp)) (CHR ''{'') 0) =
          (case (emittedWithin items (n - (length sep + length s)),
                 residue items (tsep @ tp) (n - (length sep + length s))) of
             (out, b) \<Rightarrow> (v # out, b))"
      unfolding t
      using extract_object [where parse = parse and sep = sep and s = s and v = v
          and rest = "take (n - (length sep + length s)) (layout items @ tsep @ tp)"]
        sep s v Cons.IH [OF w, of "n - (length sep + length s)"]
      by simp
    then show ?thesis
      using True by (simp add: item)
  next
    case False
    then have t: "take n (layout (item # items) @ tsep @ tp) =
        take n sep @ take (n - length sep) s"
      unfolding item by simp
    have "CHR ''{'' \<notin> set (take n sep)"
      using sep by (auto dest: in_set_takeD)
    moreover have "neverCloses (take (n - length sep) s)"
      using s False closedObject_length [OF s] by (intro closedObject_take) simp_all
    ultimately show ?thesis
      unfolding t using extract_open [of "take n sep" "take (n - length sep) s" parse] False
      by (simp add: item)
  qed
qed

lemma emittedWithin_mono:
  "n1 \<le> n2 \<Longrightarrow> \<exists>ys. emittedWithin items n2 = emittedWithin items n1 @ ys"
proof (induction items arbitrary: n1 n2)
  case Nil
  then show ?case by simp
next
  case (Cons item items)
  obtain sep s v where item: "item = (sep, s, v)" by (cases item)
  show ?case
    using Cons.IH [of "n1 - (length sep + length s)" "n2 - (length sep + length s)"] Cons.prems
    unfolding item by auto
qed

lemma extract_continue:
  assumes "wellFormed parse items" and "CHR ''{'' \<notin> set tsep" and "neverCloses tp"
    and "n0 \<le> n"
  shows "extractLoop parse
           (residue items (tsep @ tp) n0 @ take (n - n0) (drop n0 (layout items @ tsep @ tp)))
           (indexOf (residue items (tsep @ tp) n0 @
                       take (n - n0) (drop n0 (layout items @ tsep @ tp))) (CHR ''{'') 0) =
         (drop (length (emittedWithin items n0)) (emittedWithin items n),
          residue items (tsep @ tp) n)"
  using assms(1,4)
proof (induction items arbitrary: n0 n)
  case Nil
  have "take n0 (tsep @ tp) @ take (n - n0) (drop n0 (tsep @ tp)) = take n (tsep @ tp)"
    using Nil.prems(2) by (metis le_add_diff_inverse take_add)
  then show ?case
    using extract_prefix [OF Nil.prems(1) assms(2,3), of n] by simp
next
  case (Cons item items)
  obtain sep s v where item: "item = (sep, s, v)" by (cases item)
  from Cons.prems have w: "wellFormed parse items"
    unfolding item wellFormed_Cons by simp
  let ?L = "length sep + length s"
  show ?case
  proof (cases "?L \<le> n0")
    case True
    then have d: "drop n0 (layout (item # items) @ tsep @ tp) =
        drop (n0 - ?L) (layout items @ tsep @ tp)"
      unfolding item by simp
    have "n0 - ?L \<le> n - ?L" and "n - ?L - (n0 - ?L) = n - n0" and "?L \<le> n"
      using True Cons.prems(2) by simp_all
    then show ?thesis
      unfolding d using Cons.IH [OF w, of "n0 - ?L" "n - ?L"] True
      by (simp add: item)
  next
    case False
    then have r: "residue (item # items) (tsep @ tp) n0 = take n0 (layout (item # items) @ tsep @ tp)"
      unfolding item by simp
    have "take n0 (layout (item # items) @ tsep @ tp) @
          take (n - n0) (drop n0 (layout (item # items) @ tsep @ tp)) =
          take n (layout (item # items) @ tsep @ tp)"
      using Cons.prems(2) by (metis le_add_diff_inverse take_add)
    then show ?thesis
      unfolding r using extract_prefix [OF Cons.prems(1) assms(2,3), of n] False
      by (simp add: item)
  qed
qed

lemma residue_0: "residue items tail 0 = []"
  by (induction items) auto

lemma emittedWithin_0: "wellFormed parse items \<Longrightarrow> emittedWithin items 0 = []"
  by (cases items) (auto simp: wellFormed_def closedObject_def)

lemma emittedWithin_all:
  "length (layout items) \<le> n \<Longrightarrow> emittedWithin items n = map (\<lambda>(sep, s, v). v) items"
  by (induction items arbitrary: n) auto

lemma residue_all:
  "length (layout items) \<le> n \<Longrightarrow> residue items tail n = take (n - length (layout items)) tail"
proof (induction items arbitrary: n)
  case Nil
  then show ?case by simp
next
  case (Cons item items)
  obtain sep s v where item: "item = (sep, s, v)" by (cases item)
  have "n - (length sep + length s) - length (layout items) = n - length (layout (item # items))"
    by (simp add: item)
  then show ?case
    using Cons.IH [of "n - (length sep + length s)"] Cons.prems by (simp add: item)
qed

lemma streamText_Cons:
  "streamText (c # cs) = (case c of None \<Rightarrow> [] | Some t \<Rightarrow> t) @ streamText cs"
  by (simp add: streamText_def)

lemma streamText_take_drop: "streamText chunks = streamText (take k chunks) @ streamText (drop k chunks)"
  unfolding streamText_def by (metis append_take_drop_id concat_append map_append)

lemma prefix_split:
  assumes "x @ y = take (length (x @ y)) D"
  shows "x = take (length x) D \<and> y = take (length y) (drop (length x) D)"
proof -
  have "x = take (length x) (take (length x + length y) D) \<and>
        y = drop (length x) (take (length x + length y) D)"
    using assms by (metis append_eq_conv_conj length_append)
  then show ?thesis
    unfolding take_take drop_take by simp
qed

lemma runStream_fst:
  "fst (runStream parse b (c # cs)) =
     fst (consumeChunk parse b c) # fst (runStream parse (snd (consumeChunk parse b c)) cs)"
  by (simp split: prod.splits)

lemma runStream_snd:
  "snd (runStream parse b (c # cs)) = snd (runStream parse (snd (consumeChunk parse b c)) cs)"
  by (simp split: prod.splits)

lemma runStream_layout:
  assumes "wellFormed parse items" and "CHR ''{'' \<notin> set tsep" and "neverCloses tp"
  shows "streamText chunks = take (length (streamText chunks)) (drop n0 (layout items @ tsep @ tp)) \<Longrightarrow>
     concat (fst (runStream parse (residue items (tsep @ tp) n0) chunks)) =
       drop (length (emittedWithin items n0))
            (emittedWithin items (n0 + length (streamText chunks))) \<and>
     snd (runStream parse (residue items (tsep @ tp) n0) chunks) =
       residue items (tsep @ tp) (n0 + length (streamText chunks))"
proof (induction chunks arbitrary: n0)
  case Nil
  then show ?case by (simp add: streamText_def)
next
  case (Cons c chunks)
  let ?T = "layout items @ tsep @ tp"
  let ?m = "length (streamText chunks)"
  show ?case
  proof (cases c)
    case None
    have e: "streamText (c # chunks) = streamText chunks"
      by (simp add: streamText_Cons None)
    have "streamText chunks = take ?m (drop n0 ?T)"
      using Cons.prems unfolding e .
    then show ?thesis
      unfolding e runStream_fst runStream_snd using Cons.IH [of n0]
      by (simp add: consumeChunk_def None)
  next
    case (Some f)
    have e: "streamText (c # chunks) = f @ streamText chunks"
      by (simp add: streamText_Cons Some)
    have p: "f @ streamText chunks = take (length (f @ streamText chunks)) (drop n0 ?T)"
      using Cons.prems unfolding e .
    have f: "f = take (length f) (drop n0 ?T)"
      using prefix_split [OF p] by blast
    have "streamText chunks = take ?m (drop (length f) (drop n0 ?T))"
      using prefix_split [OF p] by blast
    then have r: "streamText chunks = take ?m (drop (n0 + length f) ?T)"
      by (simp only: drop_drop add.commute)
    have "residue items (tsep @ tp) n0 @ f =
        residue items (tsep @ tp) n0 @ take (n0 + length f - n0) (drop n0 ?T)"
      using f by simp
    then have step: "consumeChunk parse (residue items (tsep @ tp) n0) c =
        (drop (length (emittedWithin items n0)) (emittedWithin items (n0 + length f)),
         residue items (tsep @ tp) (n0 + length f))"
      using extract_continue [OF assms, of n0 "n0 + length f"]
      by (simp only: consumeChunk_def Some option.case le_add1)
    obtain ys where ys: "emittedWithin items (n0 + length f) = emittedWithin items n0 @ ys"
      using emittedWithin_mono [of n0 "n0 + length f" items] by auto
    obtain zs where zs: "emittedWithin items (n0 + length f + ?m) =
        emittedWithin items (n0 + length f) @ zs"
      using emittedWithin_mono [of "n0 + length f" "n0 + length f + ?m" items] by auto
    have l: "n0 + length (streamText (c # chunks)) = n0 + length f + ?m"
      by (simp add: e)
    show ?thesis
      unfolding l runStream_fst runStream_snd step using Cons.IH [OF r]
      by (simp add: ys zs)
  qed
qed

lemma runStream_take:
  "fst (runStream parse b (take k chunks)) = take k (fst (runStream parse b chunks))"
proof (induction chunks arbitrary: b k)
  case Nil
  then show ?case by simp
next
  case (Cons c chunks)
  show ?case
  proof (cases k)
    case 0
    then show ?thesis by simp
  next
    case (Suc j)
    then show ?thesis
      unfolding Suc take_Suc_Cons runStream_fst using Cons.IH by simp
  qed
qed

lemma parseJsonStream_prefix:
  assumes "wellFormed parse items" and "CHR ''{'' \<notin> set tsep" and "neverCloses tp"
    and "streamText chunks = take (length (streamText chunks)) (layout items @ tsep @ tp)"
  shows "concat (parseJsonStream parse chunks) = emittedWithin items (length (streamText chunks)) \<and>
     snd (runStream parse [] chunks) = residue items (tsep @ tp) (length (streamText chunks))"
  using runStream_layout [OF assms(1-3), of chunks 0] assms(4) emittedWithin_0 [OF assms(1)]
  by (simp add: residue_0 parseJsonStream_def)

lemma streamText_take_prefix:
  assumes "streamText chunks = T"
  shows "streamText (take k chunks) = take (length (streamText (take k chunks))) T"
proof -
  have "T = streamText (take k chunks) @ streamText (drop k chunks)"
    using assms streamText_take_drop [of chunks k] by simp
  then show ?thesis by simp
qed

text \<open>The text of a brace free JSON object is an object text.\<close>

lemma noBrace_depth: "noBrace s \<Longrightarrow> braceDepth s = 0"
  by (induction s) (auto simp: noBrace_def)

lemma noBrace_take: "noBrace s \<Longrightarrow> noBrace (take n s)"
  by (auto simp: noBrace_def dest: in_set_takeD)

lemma noBrace_nested: "noBrace s \<Longrightarrow> nested s"
  by (simp add: nested_def noBrace_depth noBrace_take)

lemma nested_append: "nested a \<Longrightarrow> nested b \<Longrightarrow> nested (a @ b)"
  by (auto simp: nested_def braceDepth_append)

lemma nested_Nil: "nested []"
  by (simp add: nested_def)

lemma nested_joinComma: "list_all nested xs \<Longrightarrow> nested (joinComma xs)"
proof (induction xs rule: joinComma.induct)
  case (3 x y ys)
  have "nested '',''" by (simp add: noBrace_nested noBrace_def)
  with 3 have "nested (x @ '','' @ joinComma (y # ys))"
    by (intro nested_append) simp_all
  then show ?case by simp
qed (simp_all add: nested_Nil)

lemma nested_quoted: "noBrace s \<Longrightarrow> nested (quoted s)"
  by (rule noBrace_nested) (simp add: quoted_def noBrace_def)

lemma nested_braces:
  assumes "nested m"
  shows "closedObject (''{'' @ m @ ''}'')" and "nested (''{'' @ m @ ''}'')"
proof -
  have d: "braceDepth (''{'' @ m @ ''}'') = 0"
    using assms by (simp add: nested_def braceDepth_append)
  have p: "0 < braceDepth (take n (CHR ''{'' # m))" if "0 < n" for n
  proof -
    obtain k where n: "n = Suc k" using \<open>0 < n\<close> by (cases n) auto
    have "0 \<le> braceDepth (take k m)"
      using assms by (simp add: nested_def)
    then show ?thesis unfolding n by simp
  qed
  have "butlast (''{'' @ m @ ''}'') = CHR ''{'' # m"
    by (simp add: butlast_append)
  then show "closedObject (''{'' @ m @ ''}'')"
    using d p by (simp add: closedObject_def neverCloses_iff)
  have "0 \<le> braceDepth (take n (''{'' @ m @ ''}''))" for n
  proof (cases "n \<le> length (CHR ''{'' # m)")
    case True
    then have "take n ((CHR ''{'' # m) @ ''}'') = take n (CHR ''{'' # m)"
      by (simp only: take_append) simp
    then have "take n (''{'' @ m @ ''}'') = take n (CHR ''{'' # m)" by simp
    then show ?thesis using p [of n] by (cases "n = 0") auto
  next
    case False
    then have "take n (''{'' @ m @ ''}'') = ''{'' @ m @ ''}''" by simp
    then show ?thesis using d by simp
  qed
  then show "nested (''{'' @ m @ ''}'')"
    using d by (simp add: nested_def)
qed

lemma nested_render: "braceFree v \<Longrightarrow> nested (render v)"
proof (induction v)
  case (JArr xs)
  have "list_all nested (map render xs)"
    using JArr by (auto simp: list_all_iff)
  then have "nested (joinComma (map render xs))" by (rule nested_joinComma)
  moreover have "nested ''[''" "nested '']''" by (simp_all add: noBrace_nested noBrace_def)
  ultimately show ?case by (simp add: nested_append del: append.simps)
next
  case (JObj kvs)
  have "list_all nested (map (\<lambda>kv. quoted (fst kv) @ '':'' @ render (snd kv)) kvs)"
    unfolding list_all_iff
  proof
    fix x assume "x \<in> set (map (\<lambda>kv. quoted (fst kv) @ '':'' @ render (snd kv)) kvs)"
    then obtain kv where kv: "kv \<in> set kvs" and x: "x = quoted (fst kv) @ '':'' @ render (snd kv)"
      by auto
    have "noBrace (fst kv)" and "braceFree (snd kv)"
      using JObj.prems kv by (auto simp: list_all_iff)
    moreover have "snd kv \<in> Basic_BNFs.snds kv" by (cases kv) simp
    ultimately have "nested (quoted (fst kv))" and "nested (render (snd kv))"
      using JObj.IH kv by (auto simp: nested_quoted)
    moreover have "nested '':''" by (simp add: noBrace_nested noBrace_def)
    ultimately show "nested x" unfolding x by (intro nested_append)
  qed
  then have "nested (joinComma (map (\<lambda>kv. quoted (fst kv) @ '':'' @ render (snd kv)) kvs))"
    by (rule nested_joinComma)
  then show ?case using nested_braces(2) by simp
qed (simp_all add: noBrace_nested noBrace_def nested_quoted)

lemma closedObject_render: "braceFree (JObj kvs) \<Longrightarrow> closedObject (render (JObj kvs))"
proof -
  assume b: "braceFree (JObj kvs)"
  have "list_all nested (map (\<lambda>kv. quoted (fst kv) @ '':'' @ render (snd kv)) kvs)"
    unfolding list_all_iff
  proof
    fix x assume "x \<in> set (map (\<lambda>kv. quoted (fst kv) @ '':'' @ render (snd kv)) kvs)"
    then obtain kv where kv: "kv \<in> set kvs" and x: "x = quoted (fst kv) @ '':'' @ render (snd kv)"
      by auto
    have "noBrace (fst kv)" and "braceFree (snd kv)"
      using b kv by (auto simp: list_all_iff)
    then have "nested (quoted (fst kv))" and "nested (render (snd kv))"
      by (auto simp: nested_quoted nested_render)
    moreover have "nested '':''" by (simp add: noBrace_nested noBrace_def)
    ultimately show "nested x" unfolding x by (intro nested_append)
  qed
  then have "nested (joinComma (map (\<lambda>kv. quoted (fst kv) @ '':'' @ render (snd kv)) kvs))"
    by (rule nested_joinComma)
  then show ?thesis using nested_braces(1) by simp
qed

lemma layout_itemsWith:
  "layout (itemsWith sep (v # vs)) = sep @ joinComma (map render (v # vs))"
  by (induction vs arbitrary: sep v) simp_all

lemma values_itemsWith: "map (\<lambda>(sep, s, v). v) (itemsWith sep vs) = vs"
  by (induction vs arbitrary: sep) simp_all

lemma wellFormed_itemsWith:
  assumes "list_all (\<lambda>v. isObject v \<and> braceFree v \<and> parse (render v) = Some v) vs"
    and "CHR ''{'' \<notin> set sep"
  shows "wellFormed parse (itemsWith sep vs)"
  using assms
proof (induction vs arbitrary: sep)
  case Nil
  then show ?case by (simp add: wellFormed_def)
next
  case (Cons v vs)
  then obtain kvs where v: "v = JObj kvs"
    by (cases v) (simp_all add: isObject_def)
  have "closedObject (render v)"
    using Cons.prems(1) unfolding v by (intro closedObject_render) simp
  moreover have "wellFormed parse (itemsWith '','' vs)"
    using Cons.prems(1) by (intro Cons.IH) simp_all
  ultimately show ?case
    using Cons.prems by (simp add: wellFormed_Cons)
qed

lemma json_array_extracted:
  assumes "list_all (\<lambda>v. isObject v \<and> braceFree v \<and> parse (render v) = Some v) objs"
    and "streamText chunks = render (JArr objs)"
  shows "concat (parseJsonStream parse chunks) = objs"
proof -
  define tail where "tail = (if objs = [] then ''[]'' else '']'')"
  have w: "wellFormed parse (itemsWith ''['' objs)"
    using assms(1) by (rule wellFormed_itemsWith) simp
  have t: "CHR ''{'' \<notin> set tail"
    by (simp add: tail_def)
  have nc: "neverCloses []"
    by (simp add: neverCloses_def)
  have r: "render (JArr objs) = layout (itemsWith ''['' objs) @ tail"
  proof (cases objs)
    case Nil
    then show ?thesis by (simp add: tail_def)
  next
    case (Cons v vs)
    have "tail = '']''" by (simp add: tail_def Cons)
    then show ?thesis unfolding Cons layout_itemsWith by simp
  qed
  have "streamText chunks =
      take (length (streamText chunks)) (layout (itemsWith ''['' objs) @ tail @ [])"
    using assms(2) r by simp
  then have "concat (parseJsonStream parse chunks) =
      emittedWithin (itemsWith ''['' objs) (length (streamText chunks))"
    using parseJsonStream_prefix [OF w t nc] by blast
  also have "\<dots> = map (\<lambda>(sep, s, v). v) (itemsWith ''['' objs)"
    using assms(2) r by (intro emittedWithin_all) simp
  finally show ?thesis
    by (simp add: values_itemsWith)
qed

lemma exampleItems_wellFormed: "wellFormed exampleObjParse exampleItems"
  by code_simp

lemma exampleChunks_text: "streamText exampleChunks = layout exampleItems @ '']''"
  by code_simp

lemma exampleChunks_first: "emittedWithin exampleItems (length (streamText (take 1 exampleChunks))) = []"
  by code_simp
lemma exampleChunks_second: "emittedWithin exampleItems (length (streamText (take 2 exampleChunks))) = [(''a'', 1)]"
  by code_simp

lemma exampleOpen_neverCloses: \<open>neverCloses ''{"b":{"c":2}''\<close>
  by code_simp

lemma exampleOpenChunks_text: \<open>streamText exampleOpenChunks = layout exampleOpenItems @ '','' @ ''{"b":{"c":2}''\<close>
  by code_simp

lemma scenario_two_fragments: \<open>parseJsonStream exampleObjParse  [Some ''{"a":1}{"b"'', Some '':2}''] = [[(''a'', 1)], [(''b'', 2)]]\<close>
  by code_simp

subsection \<open>The batch\<close>

lemma streamText_snoc: "streamText (cs @ [c]) = streamText cs @ (case c of None \<Rightarrow> [] | Some t \<Rightarrow> t)"
  by (simp add: streamText_def)

lemma taskAfter_step:
  "fst (stepTask sid aid (taskAfter sc n) prev) = taskAfter sc (Suc n)"
proof (cases "n < length (fst sc)")
  case True
  then have d: "drop n (fst sc) = (fst sc ! n) # drop (Suc n) (fst sc)"
    by (simp add: Cons_nth_drop_Suc)
  have t: "take (Suc n) (fst sc) = take n (fst sc) @ [fst sc ! n]"
    using True by (simp add: take_Suc_conv_app_nth)
  show ?thesis
    using True unfolding taskAfter_def d t streamText_snoc
    by (cases "fst sc ! n") simp_all
next
  case False
  then show ?thesis
    by (cases "n = length (fst sc)") (simp_all add: taskAfter_def)
qed

lemma patchArtifacts_id: "patchArtifacts sid aid (\<lambda>art. art) ss = ss"
  unfolding patchArtifacts_def by (induction ss) (auto simp: map_idI)

lemma stepTask_sessions:
  "snd (stepTask sid aid t ss) = patchArtifacts sid aid (stepPatch t) ss"
  by (cases "(sid, aid, t, ss)" rule: stepTask.cases)
    (auto simp: publishIncrement_def publishFinal_def patchArtifacts_id split: option.splits)

lemma stepPatch_id: "artifact_id (stepPatch t a) = artifact_id a"
  by (cases t rule: stepPatch.cases) auto

lemma artifactView_id: "artifact_id (artifactView sc t a0) = artifact_id a0"
  by (simp add: artifactView_def split: Task.splits)

lemma view_step:
  "stepPatch (taskAfter sc n) (artifactView sc (taskAfter sc n) a0) =
     artifactView sc (taskAfter sc (Suc n)) a0"
proof (cases "n < length (fst sc)")
  case True
  then have d: "drop n (fst sc) = (fst sc ! n) # drop (Suc n) (fst sc)"
    by (simp add: Cons_nth_drop_Suc)
  have t: "take (Suc n) (fst sc) = take n (fst sc) @ [fst sc ! n]"
    using True by (simp add: take_Suc_conv_app_nth)
  show ?thesis
    using True unfolding taskAfter_def d t streamText_snoc
    by (cases "fst sc ! n") (simp_all add: artifactView_def)
next
  case False
  then show ?thesis
    by (cases "n = length (fst sc)") (simp_all add: taskAfter_def artifactView_def)
qed

lemma placeholder_ids:
  "i < 3 \<Longrightarrow> j < 3 \<Longrightarrow>
   artifact_id (placeholderArtifacts sid ! i) = artifact_id (placeholderArtifacts sid ! j) \<longleftrightarrow> i = j"
  by (auto simp: placeholderArtifacts_def less_Suc_eq numeral_3_eq_3)

lemma count_list_snoc: "count_list (xs @ [j]) i = count_list xs i + (if i = j then 1 else 0)"
  by (induction xs) auto

lemma taskAfter_settled_mono: "isSettled (taskAfter sc n) \<Longrightarrow> isSettled (taskAfter sc (Suc n))"
  by (auto simp: taskAfter_def isSettled_def split: if_splits)

lemma taskAfter_not_rejected: "Settled Rejected \<noteq> taskAfter sc n"
  by (simp add: taskAfter_def)

lemma taskAfter_settled_iff: "isSettled (taskAfter sc n) \<longleftrightarrow> taskAfter sc n = Settled Fulfilled"
  by (simp add: taskAfter_def isSettled_def)

lemma map_upt3_update:
  "j < 3 \<Longrightarrow> (map f [0..<3])[j := x] = map (\<lambda>i. if i = j then x else f i) [0..<3]"
  by (rule nth_equalityI) (auto simp: nth_list_update)

lemma patchArtifacts_at:
  "k < length ss \<Longrightarrow> session_id (ss ! k) = sid \<Longrightarrow>
   patchArtifacts sid aid f ss ! k =
     (ss ! k)\<lparr>artifacts := map (\<lambda>a. if artifact_id a = aid then f a else a) (artifacts (ss ! k))\<rparr>"
  by (simp add: patchArtifacts_def)

lemma length_patchArtifacts: "length (patchArtifacts sid aid f ss) = length ss"
  by (simp add: patchArtifacts_def)

lemma length_placeholders: "length (placeholderArtifacts sid) = 3"
  by (simp add: placeholderArtifacts_def)

lemma batchStep_invariant:
  assumes r: "batchReady sid k st"
    and t: "tasks = batchTasks scripts steps"
    and n: "length (sessions st') = length (sessions st)"
    and v: "sessions st' ! k =
              (sessions st ! k)\<lparr>artifacts := batchView scripts steps (artifacts (sessions st ! k))\<rparr>"
    and lo: "isLoading st' = (\<not> list_all isSettled tasks)"
    and j: "j < 3"
  shows "fst (batchStep sid j (tasks, st')) =
           batchTasks scripts (\<lambda>i. steps i + (if i = j then 1 else 0)) \<and>
         length (sessions (snd (batchStep sid j (tasks, st')))) = length (sessions st) \<and>
         sessions (snd (batchStep sid j (tasks, st'))) ! k =
           (sessions st ! k)\<lparr>artifacts :=
              batchView scripts (\<lambda>i. steps i + (if i = j then 1 else 0))
                (artifacts (sessions st ! k))\<rparr> \<and>
         isLoading (snd (batchStep sid j (tasks, st'))) =
           (\<not> list_all isSettled (fst (batchStep sid j (tasks, st'))))"
proof -
  let ?aid = "artifact_id (placeholderArtifacts sid ! j)"
  let ?t = "taskAfter (scripts ! j) (steps j)"
  let ?steps' = "\<lambda>i. steps i + (if i = j then 1 else 0)"
  let ?arts = "artifacts (sessions st ! k)"
  have k: "k < length (sessions st)" and sid: "session_id (sessions st ! k) = sid"
    and ids: "map artifact_id ?arts = map artifact_id (placeholderArtifacts sid)"
    using r by (simp_all add: batchReady_def)
  have len: "length ?arts = 3"
  proof -
    have "length (map artifact_id ?arts) = length (map artifact_id (placeholderArtifacts sid))"
      using ids by simp
    then show ?thesis by (simp add: length_placeholders)
  qed
  have idi: "artifact_id (?arts ! i) = artifact_id (placeholderArtifacts sid ! i)" if "i < 3" for i
  proof -
    have "artifact_id (?arts ! i) = map artifact_id ?arts ! i"
      using that len by simp
    also have "\<dots> = map artifact_id (placeholderArtifacts sid) ! i"
      using ids by simp
    also have "\<dots> = artifact_id (placeholderArtifacts sid ! i)"
      using that by (simp add: length_placeholders)
    finally show ?thesis .
  qed
  have tj: "tasks ! j = ?t" and lt: "length tasks = 3"
    using j unfolding t batchTasks_def by simp_all
  obtain task' sessions' where st: "stepTask sid ?aid ?t (sessions st') = (task', sessions')"
    by (cases "stepTask sid ?aid ?t (sessions st')")
  have task': "task' = taskAfter (scripts ! j) (Suc (steps j))"
    using taskAfter_step [of sid ?aid "scripts ! j" "steps j" "sessions st'"] st by simp
  have sessions': "sessions' = patchArtifacts sid ?aid (stepPatch ?t) (sessions st')"
    using stepTask_sessions [of sid ?aid ?t "sessions st'"] st by simp
  have tasks': "tasks[j := task'] = batchTasks scripts ?steps'"
    unfolding t batchTasks_def task' using j
    by (simp only: map_upt3_update) (rule map_cong, simp_all)
  have b: "batchStep sid j (tasks, st') =
      (tasks[j := task'],
       if promiseAll (tasks[j := task']) = None then st'\<lparr>sessions := sessions'\<rparr>
       else st'\<lparr>sessions := sessions', isLoading := False\<rparr>)"
    using j lt st tj by (simp add: batchStep_def)
  have sid': "session_id (sessions st' ! k) = sid"
    unfolding v using sid by simp
  have "sessions' ! k =
      (sessions st' ! k)\<lparr>artifacts :=
         map (\<lambda>a. if artifact_id a = ?aid then stepPatch ?t a else a)
           (artifacts (sessions st' ! k))\<rparr>"
    unfolding sessions' using k n sid' by (intro patchArtifacts_at) simp_all
  also have "\<dots> = (sessions st ! k)\<lparr>artifacts :=
         map (\<lambda>a. if artifact_id a = ?aid then stepPatch ?t a else a)
           (batchView scripts steps ?arts)\<rparr>"
    unfolding v by simp
  also have "map (\<lambda>a. if artifact_id a = ?aid then stepPatch ?t a else a)
           (batchView scripts steps ?arts) = batchView scripts ?steps' ?arts"
    unfolding batchView_def map_map comp_def
  proof (rule map_cong [OF refl])
    fix i assume "i \<in> set [0..<3]"
    then have i: "i < 3" by simp
    show "(if artifact_id (artifactView (scripts ! i) (taskAfter (scripts ! i) (steps i)) (?arts ! i)) = ?aid
           then stepPatch ?t (artifactView (scripts ! i) (taskAfter (scripts ! i) (steps i)) (?arts ! i))
           else artifactView (scripts ! i) (taskAfter (scripts ! i) (steps i)) (?arts ! i)) =
          artifactView (scripts ! i) (taskAfter (scripts ! i) (?steps' i)) (?arts ! i)"
      using placeholder_ids [OF i j, of sid] idi [OF i]
      by (simp add: artifactView_id view_step)
  qed
  finally have v': "sessions' ! k =
      (sessions st ! k)\<lparr>artifacts := batchView scripts ?steps' ?arts\<rparr>" .
  have n': "length sessions' = length (sessions st)"
    unfolding sessions' using n by (simp add: length_patchArtifacts)
  have nr: "\<not> list_ex (\<lambda>t. t = Settled Rejected) (batchTasks scripts ?steps')"
    by (simp add: batchTasks_def list_ex_iff image_iff taskAfter_not_rejected)
  have al: "list_all (\<lambda>t. t = Settled Fulfilled) (batchTasks scripts ?steps') =
      list_all isSettled (batchTasks scripts ?steps')"
    by (simp add: batchTasks_def list_all_iff taskAfter_settled_iff)
  have pa: "promiseAll (tasks[j := task']) = None \<longleftrightarrow>
      \<not> list_all isSettled (batchTasks scripts ?steps')"
    unfolding tasks' promiseAll_def using nr al by simp
  have mono: "list_all isSettled tasks \<Longrightarrow> list_all isSettled (batchTasks scripts ?steps')"
    unfolding t batchTasks_def list_all_iff
    by (auto intro: taskAfter_settled_mono)
  have f'': "fst (batchStep sid j (tasks, st')) = batchTasks scripts ?steps'"
    unfolding b using tasks' by simp
  have s'': "sessions (snd (batchStep sid j (tasks, st'))) = sessions'"
    unfolding b by simp
  have l'': "isLoading (snd (batchStep sid j (tasks, st'))) =
      (if promiseAll (tasks[j := task']) = None then isLoading st' else False)"
    unfolding b by simp
  have lo': "isLoading (snd (batchStep sid j (tasks, st'))) =
      (\<not> list_all isSettled (batchTasks scripts ?steps'))"
  proof (cases "list_all isSettled (batchTasks scripts ?steps')")
    case True
    then have "promiseAll (tasks[j := task']) \<noteq> None" using pa by blast
    then show ?thesis unfolding l'' using True by auto
  next
    case False
    then have "\<not> list_all isSettled tasks" using mono by blast
    moreover have "promiseAll (tasks[j := task']) = None" using pa False by blast
    ultimately show ?thesis unfolding l'' using lo False by simp
  qed
  show ?thesis
    unfolding f'' s'' using n' v' lo' unfolding f'' by blast
qed

lemma upt3: "[0..<3] = [0, 1, 2]"
  by (simp add: upt_rec numeral_3_eq_3)

lemma length3E: "length xs = 3 \<Longrightarrow> \<exists>a b c. xs = [a, b, c]"
  by (cases xs; cases "tl xs"; cases "tl (tl xs)") auto

lemma batchTasks_cong:
  "(\<And>i. i < 3 \<Longrightarrow> f i = g i) \<Longrightarrow> batchTasks scripts f = batchTasks scripts g"
  by (simp add: batchTasks_def)

lemma batchView_cong:
  "(\<And>i. i < 3 \<Longrightarrow> f i = g i) \<Longrightarrow> batchView scripts f arts = batchView scripts g arts"
  by (simp add: batchView_def)

lemma length_batchTasks: "length (batchTasks scripts steps) = 3"
  by (simp add: batchTasks_def)

lemma artifact_html_nil: "html a = [] \<Longrightarrow> a\<lparr>html := []\<rparr> = (a :: Artifact)"
  by simp

lemma runBatch_snoc:
  "runBatch sid (schedule @ [j]) state = batchStep sid j (runBatch sid schedule state)"
  by (simp add: runBatch_def)

lemma runBatch_invariant:
  assumes r: "batchReady sid k st" and l: "length scripts = 3"
  shows "fst (runBatch sid schedule (map startTask scripts, st)) =
           batchTasks scripts (count_list schedule) \<and>
         length (sessions (snd (runBatch sid schedule (map startTask scripts, st)))) =
           length (sessions st) \<and>
         sessions (snd (runBatch sid schedule (map startTask scripts, st))) ! k =
           (sessions st ! k)\<lparr>artifacts :=
              batchView scripts (count_list schedule) (artifacts (sessions st ! k))\<rparr> \<and>
         isLoading (snd (runBatch sid schedule (map startTask scripts, st))) =
           (\<not> list_all isSettled (fst (runBatch sid schedule (map startTask scripts, st))))"
proof (induction schedule rule: rev_induct)
  case Nil
  let ?arts = "artifacts (sessions st ! k)"
  have ids: "map artifact_id ?arts = map artifact_id (placeholderArtifacts sid)"
    and h: "list_all (\<lambda>a. html a = [] \<and> status a = Streaming) ?arts" and lo: "isLoading st"
    using r by (simp_all add: batchReady_def)
  have len: "length ?arts = 3"
  proof -
    have "length (map artifact_id ?arts) = length (map artifact_id (placeholderArtifacts sid))"
      using ids by simp
    then show ?thesis by (simp add: length_placeholders)
  qed
  obtain s0 s1 s2 where sc: "scripts = [s0, s1, s2]"
    using length3E [OF l] by blast
  obtain a0 a1 a2 where ar: "?arts = [a0, a1, a2]"
    using length3E [OF len] by blast
  have t: "map startTask scripts = batchTasks scripts (\<lambda>i. 0)"
    unfolding sc by (simp add: batchTasks_def upt3 taskAfter_def startTask_def streamText_def)
  have v: "batchView scripts (\<lambda>i. 0) ?arts = ?arts"
    using h unfolding ar sc
    by (simp add: batchView_def upt3 taskAfter_def artifactView_def streamText_def)
  have ns: "\<not> list_all isSettled (batchTasks scripts (\<lambda>i. 0))"
    by (simp add: batchTasks_def upt3 taskAfter_def isSettled_def)
  have c0: "count_list [] = (\<lambda>i. 0)"
    by (rule ext) simp
  show ?case
    unfolding runBatch_def c0 using t v ns lo by simp
next
  case (snoc j schedule)
  let ?run = "runBatch sid schedule (map startTask scripts, st)"
  have p: "?run = (fst ?run, snd ?run)" by simp
  show ?case
  proof (cases "j < 3")
    case True
    have c: "(\<lambda>i. count_list schedule i + (if i = j then 1 else 0)) = count_list (schedule @ [j])"
      by (rule ext) (simp add: count_list_snoc)
    have "fst (batchStep sid j (fst ?run, snd ?run)) =
           batchTasks scripts (\<lambda>i. count_list schedule i + (if i = j then 1 else 0)) \<and>
         length (sessions (snd (batchStep sid j (fst ?run, snd ?run)))) = length (sessions st) \<and>
         sessions (snd (batchStep sid j (fst ?run, snd ?run))) ! k =
           (sessions st ! k)\<lparr>artifacts :=
              batchView scripts (\<lambda>i. count_list schedule i + (if i = j then 1 else 0))
                (artifacts (sessions st ! k))\<rparr> \<and>
         isLoading (snd (batchStep sid j (fst ?run, snd ?run))) =
           (\<not> list_all isSettled (fst (batchStep sid j (fst ?run, snd ?run))))"
      using snoc.IH by (intro batchStep_invariant [OF r _ _ _ _ True]) simp_all
    then show ?thesis
      unfolding runBatch_snoc c prod.collapse .
  next
    case False
    have "length (fst ?run) = 3"
      using snoc.IH by (simp add: length_batchTasks)
    then have b: "batchStep sid j ?run = ?run"
      using False by (cases ?run) (simp add: batchStep_def)
    have c: "i < 3 \<Longrightarrow> count_list (schedule @ [j]) i = count_list schedule i" for i
      using False by (simp add: count_list_snoc)
    have bt: "batchTasks scripts (count_list (schedule @ [j])) =
        batchTasks scripts (count_list schedule)"
      by (rule batchTasks_cong) (rule c)
    have bv: "batchView scripts (count_list (schedule @ [j])) arts =
        batchView scripts (count_list schedule) arts" for arts
      by (rule batchView_cong) (rule c)
    show ?thesis
      unfolding runBatch_snoc b bt bv by (rule snoc.IH)
  qed
qed

lemma batchView_nth:
  "i < 3 \<Longrightarrow> batchView scripts steps arts ! i =
     artifactView (scripts ! i) (batchTasks scripts steps ! i) (arts ! i)"
  by (simp add: batchView_def batchTasks_def)

lemma batchTasks_nth: "i < 3 \<Longrightarrow> batchTasks scripts steps ! i = taskAfter (scripts ! i) (steps i)"
  by (simp add: batchTasks_def)

lemma batchTasks_promiseAll:
  "promiseAll (batchTasks scripts steps) =
     (if list_all isSettled (batchTasks scripts steps) then Some Fulfilled else None)"
proof -
  have "\<not> list_ex (\<lambda>t. t = Settled Rejected) (batchTasks scripts steps)"
    by (simp add: batchTasks_def list_ex_iff image_iff taskAfter_not_rejected)
  moreover have "list_all (\<lambda>t. t = Settled Fulfilled) (batchTasks scripts steps) =
      list_all isSettled (batchTasks scripts steps)"
    by (simp add: batchTasks_def list_all_iff taskAfter_settled_iff)
  ultimately show ?thesis
    by (simp add: promiseAll_def)
qed

lemma traceStart_batchReady: "batchReady ''s1'' 0 traceStart"
  unfolding traceStart_eq
  by (simp add: batchReady_def exampleSession_def placeholderArtifacts_def initialState_def)

lemma exampleScripts_all_settled: "batchTasks exampleScripts (count_list [1, 0, 2, 1, 0, 2, 0]) =
   [Settled Fulfilled, Settled Fulfilled, Settled Fulfilled]"
  by code_simp

lemma exampleScripts_one_running: "batchTasks exampleScripts (count_list [1, 0, 2, 1, 0, 2]) =
   [Running ''<p>a</p>'' [] False, Settled Fulfilled, Settled Fulfilled]"
  by code_simp

section \<open>Claims\<close>

text \<open>
  C3. An update of the stream, incremental or final, addressed to a session id that is
  not in the history leaves the whole history as it is: no session is created, and the
  update, a total function of the history, raises no error. After \<open>handleGoHome\<close> the
  history is empty, so every update that arrives later is dropped.
\<close>

theorem orphan_update_dropped:
  "(sessionId \<notin> session_id ` set prev \<longrightarrow>
      publishIncrement sessionId artifactId h prev = prev \<and>
      publishFinal sessionId artifactId h prev = prev) \<and>
   sessions (handleGoHome st) = [] \<and>
   publishIncrement sessionId artifactId h (sessions (handleGoHome st)) =
     sessions (handleGoHome st) \<and>
   publishFinal sessionId artifactId h (sessions (handleGoHome st)) =
     sessions (handleGoHome st)"
  by (simp add: publishIncrement_def publishFinal_def patchArtifacts_absent handleGoHome_def)

theorem orphan_update_dropped_witness:
  "''s2'' \<notin> session_id ` set [exampleSession] \<and>
   publishIncrement ''s2'' ''s2_0'' ''<p>'' [exampleSession] = [exampleSession] \<and>
   publishFinal ''s2'' ''s2_0'' ''<p/>'' [exampleSession] = [exampleSession] \<and>
   publishFinal ''s1'' ''s1_0'' ''<p/>'' (sessions (handleGoHome exampleFocused)) = []"
proof -
  have a: "''s2'' \<notin> session_id ` set [exampleSession]"
    by (simp add: exampleSession_def)
  show ?thesis
    using a orphan_update_dropped [of "''s2''" "[exampleSession]" "''s2_0''" "''<p>''"]
      orphan_update_dropped [of "''s2''" "[exampleSession]" "''s2_0''" "''<p/>''"]
      orphan_update_dropped [of "''s1''" "[]" "''s1_0''" "''<p/>''" exampleFocused]
    by simp
qed

text \<open>
  C2. Two incremental updates addressed to two different artifacts of one session
  commute; after both, every artifact with the first id holds the first text and every
  artifact with the second id holds the second; and an incremental update changes no
  field but \<open>html\<close>: with every \<open>html\<close> erased the history is as before.
\<close>

theorem patches_of_two_artifacts:
  assumes "a1 \<noteq> a2"
  shows "publishIncrement s a1 h1 (publishIncrement s a2 h2 prev) =
           publishIncrement s a2 h2 (publishIncrement s a1 h1 prev) \<and>
         publishIncrement s a1 h1 (publishIncrement s a2 h2 prev) =
           map (\<lambda>sess. if session_id sess = s
                 then sess\<lparr>artifacts :=
                        map (\<lambda>art. if artifact_id art = a1 then art\<lparr>html := h1\<rparr>
                                   else if artifact_id art = a2 then art\<lparr>html := h2\<rparr> else art)
                            (artifacts sess)\<rparr>
                 else sess) prev \<and>
         eraseHtml (publishIncrement s a1 h1 (publishIncrement s a2 h2 prev)) = eraseHtml prev \<and>
         eraseHtml (publishIncrement s a1 h1 prev) = eraseHtml prev"
proof -
  have c: "publishIncrement s a1 h1 (publishIncrement s a2 h2 prev) =
           publishIncrement s a2 h2 (publishIncrement s a1 h1 prev)"
    unfolding publishIncrement_def using assms by (intro patchArtifacts_commute) simp_all
  have b: "publishIncrement s a1 h1 (publishIncrement s a2 h2 prev) =
           map (\<lambda>sess. if session_id sess = s
                 then sess\<lparr>artifacts :=
                        map (\<lambda>art. if artifact_id art = a1 then art\<lparr>html := h1\<rparr>
                                   else if artifact_id art = a2 then art\<lparr>html := h2\<rparr> else art)
                            (artifacts sess)\<rparr>
                 else sess) prev"
    unfolding publishIncrement_def using assms by (rule patchArtifacts_both)
  have e: "eraseHtml (publishIncrement s a h p) = eraseHtml p" for a h p
    unfolding publishIncrement_def by (rule eraseHtml_patch)
  show ?thesis
    using c b e by simp
qed

theorem patches_of_two_artifacts_witness:
  "''s1_0'' \<noteq> ''s1_1'' \<and>
   publishIncrement ''s1'' ''s1_0'' ''<a>'' (publishIncrement ''s1'' ''s1_1'' ''<b>'' [exampleSession]) =
     publishIncrement ''s1'' ''s1_1'' ''<b>'' (publishIncrement ''s1'' ''s1_0'' ''<a>'' [exampleSession]) \<and>
   map (\<lambda>sess. map html (artifacts sess))
       (publishIncrement ''s1'' ''s1_0'' ''<a>''
          (publishIncrement ''s1'' ''s1_1'' ''<b>'' [exampleSession])) =
     [[''<a>'', ''<b>'', []]]"
  using patches_of_two_artifacts [of "''s1_0''" "''s1_1''" "''s1''" "''<a>''" "''<b>''"
      "[exampleSession]"]
  by (simp add: exampleSession_def placeholderArtifacts_def)
    (simp add: publishIncrement_def patchArtifacts_def)

text \<open>
  C8. With a current session and a focused artifact in it, applying a variation with the
  text \<open>h\<close> replaces, in the history, exactly the focused artifact of the current session
  by itself with \<open>html = h\<close> and \<open>status = complete\<close>; the drawer is closed; nothing else
  of the state changes.
\<close>

theorem applyVariation_focused:
  assumes "currentSessionIndex st = int c" and "c < length (sessions st)"
    and "focusedArtifactIndex st = Some fi" and "fi < length (artifacts (sessions st ! c))"
  shows "sessions (applyVariation h st) =
           (sessions st)[c := (sessions st ! c)\<lparr>artifacts :=
              (artifacts (sessions st ! c))
                [fi := (artifacts (sessions st ! c) ! fi)\<lparr>html := h, status := Complete\<rparr>]\<rparr>] \<and>
         isOpen (drawerState (applyVariation h st)) = False \<and>
         applyVariation h st = st\<lparr>sessions := sessions (applyVariation h st),
             drawerState := (drawerState st)\<lparr>isOpen := False\<rparr>\<rparr>"
  using assms by (simp add: applyVariation_def mapi_at mapi_at_int)

theorem applyVariation_focused_witness:
  "currentSessionIndex exampleFocused = int 0 \<and> 0 < length (sessions exampleFocused) \<and>
   focusedArtifactIndex exampleFocused = Some 1 \<and>
   1 < length (artifacts (sessions exampleFocused ! 0)) \<and>
   sessions (applyVariation ''<div>X</div>'' exampleFocused) =
     [exampleSession\<lparr>artifacts :=
        [\<lparr>artifact_id = ''s1_0'', styleName = Some ''Designing...'', html = [],
          status = Streaming\<rparr>,
         \<lparr>artifact_id = ''s1_1'', styleName = Some ''Designing...'', html = ''<div>X</div>'',
          status = Complete\<rparr>,
         \<lparr>artifact_id = ''s1_2'', styleName = Some ''Designing...'', html = [],
          status = Streaming\<rparr>]\<rparr>] \<and>
   isOpen (drawerState (applyVariation ''<div>X</div>'' exampleFocused)) = False"
  using applyVariation_focused [of exampleFocused 0 1 "''<div>X</div>''"]
  by (simp add: exampleFocused_def exampleSession_def placeholderArtifacts_def initialState_def)






text \<open>
  C5, as the claim states it, fails: the code strips a leading \<open>```html\<close> marker and
  then, with no \<open>else\<close>, a leading \<open>```\<close> marker as well. On the text \<open>```html```x\<close> the
  normalisation of the claim (one leading marker) leaves \<open>```x\<close>, the code leaves \<open>x\<close>;
  and the text \<open>```html```x```\<close>, the content \<open>```x\<close> wrapped in fences, is normalised to
  \<open>x\<close>, not to its trimmed inner content.
\<close>

theorem normalizeHtml_double_strip:
  "normalizeHtml ''```html```x'' = ''x'' \<and>
   specNormalize ''```html```x'' = ''```x'' \<and>
   trim (''```html'' @ ''```x'' @ ''```'') = ''```html'' @ ''```x'' @ ''```'' \<and>
   trim ''```x'' = ''```x'' \<and>
   normalizeHtml (''```html'' @ ''```x'' @ ''```'') = ''x'' \<and>
   finalStatus (normalizeHtml ''```html```x'') = Complete"
  by (simp add: normalizeHtml_def specNormalize_def Let_def startsWith_def endsWith_def
      trim_def trimStart_def trimEnd_def isWhite_def finalStatus_def)

text \<open>
  C5, amended. The accumulated text is trimmed; a leading \<open>```html\<close> marker is stripped if
  present and then a leading \<open>```\<close> marker if present, then a trailing \<open>```\<close> marker if
  present, each with the white space it uncovers. So: a text whose trimmed form neither
  starts nor ends with \<open>```\<close> is normalised to its trimmed form; \<open>```html\<close>, content,
  \<open>```\<close> is normalised to the trimmed content when the trimmed content does not itself
  start with \<open>```\<close>; \<open>```\<close>, content, \<open>```\<close> is normalised to the trimmed content when the
  opening marker is not followed by \<open>html\<close>; whenever the text left after a leading
  \<open>```html\<close> does not start with \<open>```\<close>, the result is the normalisation of the claim. Two
  leading markers are both stripped: \<open>```html\<close>, white space or nothing, \<open>```\<close>, content,
  \<open>```\<close> is normalised to the trimmed content, whatever the content starts with, and
  without the trailing marker to the content trimmed at its start. The result is always
  trimmed; and the final update gives the addressed artifact the normalised text and the
  status \<open>complete\<close> if that text is not empty, \<open>error\<close> if it is.
\<close>

theorem normalizeHtml_fences:
  "(\<not> startsWith (trim t) ''```'' \<and> \<not> endsWith (trim t) ''```'' \<longrightarrow>
      normalizeHtml t = trim t) \<and>
   (trim t = ''```html'' @ inner @ ''```'' \<and> \<not> startsWith (trim inner) ''```'' \<longrightarrow>
      normalizeHtml t = trim inner) \<and>
   (trim t = ''```'' @ inner @ ''```'' \<and> \<not> startsWith (inner @ ''```'') ''html'' \<longrightarrow>
      normalizeHtml t = trim inner) \<and>
   (\<not> (startsWith (trim t) ''```html'' \<and>
        startsWith (trimStart (drop 7 (trim t))) ''```'') \<longrightarrow>
      normalizeHtml t = specNormalize t) \<and>
   (trim t = ''```html'' @ w @ ''```'' @ inner @ ''```'' \<and> list_all isWhite w \<longrightarrow>
      normalizeHtml t = trim inner) \<and>
   (trim t = ''```html'' @ w @ ''```'' @ inner \<and> list_all isWhite w \<and>
    \<not> endsWith (trimStart inner) ''```'' \<longrightarrow>
      normalizeHtml t = trimStart inner) \<and>
   trim (normalizeHtml t) = normalizeHtml t \<and>
   (k < length prev \<and> session_id (prev ! k) = s \<and> j < length (artifacts (prev ! k)) \<and>
    artifact_id (artifacts (prev ! k) ! j) = a \<longrightarrow>
      artifacts (publishFinal s a (normalizeHtml t) prev ! k) ! j =
        (artifacts (prev ! k) ! j)
          \<lparr>html := normalizeHtml t,
           status := (if normalizeHtml t = [] then Error else Complete)\<rparr>)"
  using normalize_no_fence [of t] normalize_html_wrapped [of t inner]
    normalize_plain_wrapped [of t inner] normalize_spec [of t] normalize_trimmed [of t]
    normalize_double_wrapped [of t w inner] normalize_double_lead [of t w inner]
    publishFinal_at [of k prev s j a "normalizeHtml t"]
  by (simp add: finalStatus_def)

theorem normalizeHtml_fences_witness:
  "trim exampleFenced = ''```html'' @ exampleInner @ ''```'' \<and>
   \<not> startsWith (trim exampleInner) ''```'' \<and>
   trim exampleInner = ''<div>X</div>'' \<and>
   normalizeHtml exampleFenced = ''<div>X</div>'' \<and>
   trim exampleTwice = ''```html'' @ [CHR 0x0A] @ ''```'' @ exampleInner @ ''```'' \<and>
   list_all isWhite [CHR 0x0A] \<and>
   normalizeHtml exampleTwice = ''<div>X</div>'' \<and>
   specNormalize exampleTwice = ''```'' @ [CHR 0x0A] @ ''<div>X</div>'' \<and>
   (0::nat) < length [exampleSession] \<and> session_id ([exampleSession] ! 0) = ''s1'' \<and>
   (1::nat) < length (artifacts ([exampleSession] ! 0)) \<and>
   artifact_id (artifacts ([exampleSession] ! 0) ! 1) = ''s1_1'' \<and>
   artifacts (publishFinal ''s1'' ''s1_1'' (normalizeHtml exampleFenced) [exampleSession] ! 0) ! 1 =
     \<lparr>artifact_id = ''s1_1'', styleName = Some ''Designing...'', html = ''<div>X</div>'',
      status = Complete\<rparr>"
proof -
  have t: "trim exampleFenced = ''```html'' @ exampleInner @ ''```''"
    by (simp add: exampleFenced_def exampleInner_def trim_def trimStart_def trimEnd_def
        isWhite_def)
  have i: "trim exampleInner = ''<div>X</div>''"
    by (simp add: exampleInner_def trim_def trimStart_def trimEnd_def isWhite_def)
  have n: "\<not> startsWith (trim exampleInner) ''```''"
    unfolding i by (simp add: startsWith_def)
  have t2: "trim exampleTwice = ''```html'' @ [CHR 0x0A] @ ''```'' @ exampleInner @ ''```''"
    by (simp add: exampleTwice_def exampleInner_def trim_def trimStart_def trimEnd_def
        isWhite_def)
  have w2: "list_all isWhite [CHR 0x0A]"
    by (simp add: isWhite_def)
  have s2: "specNormalize exampleTwice = ''```'' @ [CHR 0x0A] @ ''<div>X</div>''"
    by (simp add: exampleTwice_def exampleInner_def specNormalize_def Let_def startsWith_def
        endsWith_def trim_def trimStart_def trimEnd_def isWhite_def)
  have e: "(0::nat) < length [exampleSession] \<and> session_id ([exampleSession] ! 0) = ''s1'' \<and>
      (1::nat) < length (artifacts ([exampleSession] ! 0)) \<and>
      artifact_id (artifacts ([exampleSession] ! 0) ! 1) = ''s1_1''"
    by (simp add: exampleSession_def placeholderArtifacts_def)
  have a: "artifacts ([exampleSession] ! 0) ! 1 =
      \<lparr>artifact_id = ''s1_1'', styleName = Some ''Designing...'', html = [],
       status = Streaming\<rparr>"
    by (simp add: exampleSession_def placeholderArtifacts_def)
  note w = normalizeHtml_fences [where t = exampleFenced and inner = exampleInner and k = 0
      and prev = "[exampleSession]" and s = "''s1''" and j = 1 and a = "''s1_1''"]
  have 1: "normalizeHtml exampleFenced = ''<div>X</div>''"
    using w t n i by simp
  have 2: "artifacts (publishFinal ''s1'' ''s1_1'' (normalizeHtml exampleFenced)
        [exampleSession] ! 0) ! 1 =
      (artifacts ([exampleSession] ! 0) ! 1)
        \<lparr>html := normalizeHtml exampleFenced,
         status := (if normalizeHtml exampleFenced = [] then Error else Complete)\<rparr>"
    using w e by blast
  have 3: "normalizeHtml exampleTwice = ''<div>X</div>''"
    using normalizeHtml_fences [where t = exampleTwice and inner = exampleInner
        and w = "[CHR 0x0A]"] t2 w2 i
    by simp
  show ?thesis
    using t n i e 1 2 3 t2 w2 s2 unfolding a 1 by simp
qed

text \<open>
  C6, as the claim states it, fails: the code does not parse the first balanced array
  substring but the match of \<open>/\[[\s\S]*\]/\<close>, the text from the first \<open>[\<close> to the last
  \<open>]\<close>. In the response \<open>Names: ["A","B","C"] (see [1])\<close> the first balanced array parses
  to three labels, which the claim says are used; the code parses
  \<open>["A","B","C"] (see [1]\<close>, which is no JSON, and uses the fallback labels.
\<close>

theorem resolveStyles_greedy_counterexample:
  \<open>firstBalancedArray ''Names: ["A","B","C"] (see [1])'' = Some ''["A","B","C"]'' \<and>
   exampleParse ''["A","B","C"]'' = Some [''A'', ''B'', ''C''] \<and>
   specResolveStyles exampleParse ''Names: ["A","B","C"] (see [1])'' = [''A'', ''B'', ''C''] \<and>
   matchArray ''Names: ["A","B","C"] (see [1])'' = Some ''["A","B","C"] (see [1]'' \<and>
   resolveStyles exampleParse (Some ''Names: ["A","B","C"] (see [1])'') =
     [''Modern Minimal'', ''High-Tech Dark'', ''Organic Flow'']\<close>
  by (simp add: firstBalancedArray_def exampleParse_def specResolveStyles_def matchArray_def
      resolveStyles_def Let_def fallbackStyles_def)

text \<open>
  C6, amended. The text parsed is the one from the first \<open>[\<close> of the response to the last
  \<open>]\<close> after it. When the response has no \<open>[\<close>, or no \<open>]\<close> after its first \<open>[\<close>, or that
  text does not parse, or it parses to fewer than 3 labels, the fallback labels
  \<open>Modern Minimal\<close>, \<open>High-Tech Dark\<close>, \<open>Organic Flow\<close> are used; a missing or empty response
  is read as \<open>[]\<close> and gives the fallback too; otherwise the first 3 parsed labels are
  used. Exactly 3 labels result, and they become, in order, the \<open>styleName\<close> of the three
  placeholders of the session with the new id, whose other fields stay.
\<close>

theorem resolveStyles_greedy_span:
  "length (resolveStyles parse r) = 3 \<and>
   fallbackStyles = [''Modern Minimal'', ''High-Tech Dark'', ''Organic Flow''] \<and>
   (CHR ''['' \<notin> set pre \<and> CHR '']'' \<notin> set post \<longrightarrow>
      resolveStyles parse (Some (pre @ ''['' @ mid @ '']'' @ post)) =
        (case parse (''['' @ mid @ '']'') of
           None \<Rightarrow> fallbackStyles
         | Some ls \<Rightarrow> if length ls < 3 then fallbackStyles else take 3 ls)) \<and>
   (t \<noteq> [] \<and> CHR ''['' \<notin> set t \<longrightarrow> resolveStyles parse (Some t) = fallbackStyles) \<and>
   (CHR ''['' \<notin> set pre \<and> CHR '']'' \<notin> set rest \<longrightarrow>
      resolveStyles parse (Some (pre @ ''['' @ rest)) = fallbackStyles) \<and>
   ((r = None \<or> r = Some []) \<and> parse ''[]'' = Some [] \<longrightarrow>
      resolveStyles parse r = fallbackStyles) \<and>
   (k < length prev \<and> session_id (prev ! k) = sid \<and>
    artifacts (prev ! k) = placeholderArtifacts sid \<and> resolveStyles parse r = [l0, l1, l2] \<longrightarrow>
      applyStyles sid (resolveStyles parse r) prev ! k =
        (prev ! k)\<lparr>artifacts :=
          [\<lparr>artifact_id = sid @ ''_0'', styleName = Some l0, html = [], status = Streaming\<rparr>,
           \<lparr>artifact_id = sid @ ''_1'', styleName = Some l1, html = [], status = Streaming\<rparr>,
           \<lparr>artifact_id = sid @ ''_2'', styleName = Some l2, html = [],
            status = Streaming\<rparr>]\<rparr>)"
proof -
  have a: "t \<noteq> [] \<and> CHR ''['' \<notin> set t \<longrightarrow> resolveStyles parse (Some t) = fallbackStyles"
    by (simp add: resolveStyles_nomatch matchArray_none)
  have b: "CHR ''['' \<notin> set pre \<and> CHR '']'' \<notin> set rest \<longrightarrow>
      resolveStyles parse (Some (pre @ ''['' @ rest)) = fallbackStyles"
    using matchArray_unclosed [of pre rest] by (simp add: resolveStyles_nomatch)
  have c: "k < length prev \<and> session_id (prev ! k) = sid \<and>
    artifacts (prev ! k) = placeholderArtifacts sid \<and> resolveStyles parse r = [l0, l1, l2] \<longrightarrow>
      applyStyles sid (resolveStyles parse r) prev ! k =
        (prev ! k)\<lparr>artifacts :=
          [\<lparr>artifact_id = sid @ ''_0'', styleName = Some l0, html = [], status = Streaming\<rparr>,
           \<lparr>artifact_id = sid @ ''_1'', styleName = Some l1, html = [], status = Streaming\<rparr>,
           \<lparr>artifact_id = sid @ ''_2'', styleName = Some l2, html = [],
            status = Streaming\<rparr>]\<rparr>"
    by (simp add: applyStyles_at mapi_placeholders)
  show ?thesis
    using a b c length_resolveStyles [of parse r] resolveStyles_span [of pre post parse mid]
      resolveStyles_empty [of r parse]
    by (simp add: fallbackStyles_def)
qed

theorem resolveStyles_greedy_span_witness:
  \<open>CHR ''['' \<notin> set ''Names: '' \<and> CHR '']'' \<notin> set ''.'' \<and>
   resolveStyles exampleParse (Some (''Names: '' @ ''['' @ ''"A","B","C"'' @ '']'' @ ''.'')) =
     [''A'', ''B'', ''C''] \<and>
   ''not json'' \<noteq> [] \<and> CHR ''['' \<notin> set ''not json'' \<and>
   resolveStyles exampleParse (Some ''not json'') =
     [''Modern Minimal'', ''High-Tech Dark'', ''Organic Flow''] \<and>
   (0::nat) < length [exampleSession] \<and> session_id ([exampleSession] ! 0) = ''s1'' \<and>
   artifacts ([exampleSession] ! 0) = placeholderArtifacts ''s1'' \<and>
   map styleName
     (artifacts (applyStyles ''s1''
        (resolveStyles exampleParse
           (Some (''Names: '' @ ''['' @ ''"A","B","C"'' @ '']'' @ ''.'')))
        [exampleSession] ! 0)) =
     [Some ''A'', Some ''B'', Some ''C'']\<close>
proof -
  have p: \<open>exampleParse (''['' @ ''"A","B","C"'' @ '']'') = Some [''A'', ''B'', ''C'']\<close>
    by (simp add: exampleParse_def)
  have e: "[exampleSession] ! 0 = exampleSession \<and> session_id exampleSession = ''s1'' \<and>
      artifacts exampleSession = placeholderArtifacts ''s1''"
    by (simp add: exampleSession_def)
  have 1: \<open>resolveStyles exampleParse
      (Some (''Names: '' @ ''['' @ ''"A","B","C"'' @ '']'' @ ''.'')) = [''A'', ''B'', ''C'']\<close>
    using resolveStyles_greedy_span [where parse = exampleParse and pre = "''Names: ''"
        and post = "''.''" and mid = \<open>''"A","B","C"''\<close>] p
    by simp
  have 2: "resolveStyles exampleParse (Some ''not json'') =
      [''Modern Minimal'', ''High-Tech Dark'', ''Organic Flow'']"
    using resolveStyles_greedy_span [where parse = exampleParse and t = "''not json''"]
    by simp
  have 3: \<open>map styleName
     (artifacts (applyStyles ''s1''
        (resolveStyles exampleParse
           (Some (''Names: '' @ ''['' @ ''"A","B","C"'' @ '']'' @ ''.'')))
        [exampleSession] ! 0)) =
     [Some ''A'', Some ''B'', Some ''C'']\<close>
    using resolveStyles_greedy_span [where parse = exampleParse
        and r = \<open>Some (''Names: '' @ ''['' @ ''"A","B","C"'' @ '']'' @ ''.'')\<close>
        and k = 0 and prev = "[exampleSession]" and sid = "''s1''"
        and ?l0.0 = "''A''" and ?l1.0 = "''B''" and ?l2.0 = "''C''"] 1 e
    by simp
  show ?thesis
    using 1 2 3 e by simp
qed

text \<open>
  C1. Take any sequence of objects serialised to text: each object text starts with
  \<open>{\<close> and its braces balance at its last character and not before (as for every JSON
  object with no brace inside a string), \<open>JSON.parse\<close> maps it to the object's value,
  and the text before, between and after the objects (\<open>[\<close>, commas, \<open>]\<close>, white space)
  holds no \<open>{\<close>. Cut the text into chunks at any places. Then the extractor yields exactly
  the values of the objects, in order; and while it consumes the first \<open>k\<close> chunks, for
  every \<open>k\<close>, it yields exactly the objects whose closing brace lies in these chunks: each
  object is yielded with the chunk that closes it, wherever the cuts fall. (By
  \<open>closedObject_render\<close> and \<open>json_array_extracted\<close> the compact text of an array of
  brace free JSON objects is such a text.)
\<close>

theorem extractor_complete:
  assumes "wellFormed parse items" and "CHR ''{'' \<notin> set tail"
    and "streamText chunks = layout items @ tail"
  shows "concat (parseJsonStream parse chunks) = map (\<lambda>(sep, s, v). v) items \<and>
         (\<forall>k\<le>length chunks.
            concat (take k (parseJsonStream parse chunks)) =
              emittedWithin items (length (streamText (take k chunks))))"
proof -
  have nc: "neverCloses []" by (simp add: neverCloses_def)
  have T: "streamText chunks = layout items @ tail @ []"
    using assms(3) by simp
  have pre: "concat (parseJsonStream parse (take k chunks)) =
      emittedWithin items (length (streamText (take k chunks)))" for k
    using parseJsonStream_prefix [OF assms(1,2) nc, of "take k chunks"]
      streamText_take_prefix [OF T, of k] by simp
  have tk: "parseJsonStream parse (take k chunks) = take k (parseJsonStream parse chunks)" for k
    by (simp add: parseJsonStream_def runStream_take)
  have "concat (parseJsonStream parse chunks) = emittedWithin items (length (streamText chunks))"
    using pre [of "length chunks"] by simp
  also have "\<dots> = map (\<lambda>(sep, s, v). v) items"
    using assms(3) by (intro emittedWithin_all) simp
  finally show ?thesis
    using pre tk by simp
qed

theorem extractor_complete_witness:
  "wellFormed exampleObjParse exampleItems \<and> CHR ''{'' \<notin> set '']'' \<and>
   streamText exampleChunks = layout exampleItems @ '']'' \<and>
   concat (parseJsonStream exampleObjParse exampleChunks) = [(''a'', 1), (''b'', 2)] \<and>
   concat (take 1 (parseJsonStream exampleObjParse exampleChunks)) = [] \<and>
   concat (take 2 (parseJsonStream exampleObjParse exampleChunks)) = [(''a'', 1)]"
proof -
  note w = extractor_complete [OF exampleItems_wellFormed _ exampleChunks_text]
  have l: "length exampleChunks = 3" by (simp add: exampleChunks_def)
  have 1: "concat (parseJsonStream exampleObjParse exampleChunks) = [(''a'', 1), (''b'', 2)]"
    using w by (simp add: exampleItems_def)
  have 2: "concat (take 1 (parseJsonStream exampleObjParse exampleChunks)) = []"
    using w l exampleChunks_first by simp
  have 3: "concat (take 2 (parseJsonStream exampleObjParse exampleChunks)) = [(''a'', 1)]"
    using w l exampleChunks_second by simp
  show ?thesis using exampleItems_wellFormed exampleChunks_text 1 2 3 by simp
qed

text \<open>
  C9, as the claim states it, fails: the extractor counts every brace, also one inside
  a string. The stream \<open>[{"a":{"b":1},\<close>, \<open>"c":"}\<close> ends inside its one top-level
  object, which is opened and never closed. At the \<open>}\<close> in the string the count is back
  at zero; \<open>JSON.parse\<close> throws on the text up to there, the search goes on at the next
  \<open>{\<close>, and the nested object \<open>{"b":1}\<close>, a part of the open object, is yielded; the
  buffer is cut behind it, so the text of the open object does not stay buffered.
\<close>

theorem extractor_partial_brace_in_string:
  \<open>streamText truncatedChunks = ''['' @ ''{"a":{"b":1},"c":"}'' \<and>
   parseJsonStream truncatedParse (take 1 truncatedChunks) = [[]] \<and>
   snd (runStream truncatedParse [] (take 1 truncatedChunks)) = ''[{"a":{"b":1},'' \<and>
   parseJsonStream truncatedParse truncatedChunks = [[], [(''b'', 1)]] \<and>
   snd (runStream truncatedParse [] truncatedChunks) = '',"c":"}'' \<and>
   neverCloses ''{"a":{"b":1},"c":"}'' = False\<close>
  by code_simp

text \<open>
  C9, amended: the open text is one whose brace count, every brace counted, never
  returns to zero. Let the text of the stream be a well-formed sequence of objects
  followed by a separator and a text that opens an object and never closes it in that
  sense. Then the extractor, a total function, yields the values of the complete
  objects and nothing for the open one, whatever \<open>JSON.parse\<close> would make of its parts;
  the open text, with its separator, is the buffer when the stream ends, and the result
  of \<open>parseJsonStream\<close> holds the yielded values only, so the buffer is dropped. When no
  complete object precedes it, nothing is yielded after any number of chunks and the
  buffer is all the text received so far.
\<close>

theorem extractor_partial:
  assumes "wellFormed parse items" and "CHR ''{'' \<notin> set sep" and "neverCloses p"
    and "streamText chunks = layout items @ sep @ p"
  shows "concat (parseJsonStream parse chunks) = map (\<lambda>(sep, s, v). v) items \<and>
         snd (runStream parse [] chunks) = sep @ p \<and>
         (items = [] \<longrightarrow>
            (\<forall>k\<le>length chunks.
               concat (take k (parseJsonStream parse chunks)) = [] \<and>
               snd (runStream parse [] (take k chunks)) = streamText (take k chunks)))"
proof -
  have pre: "concat (parseJsonStream parse (take k chunks)) =
      emittedWithin items (length (streamText (take k chunks))) \<and>
      snd (runStream parse [] (take k chunks)) =
        residue items (sep @ p) (length (streamText (take k chunks)))" for k
    using parseJsonStream_prefix [OF assms(1-3), of "take k chunks"]
      streamText_take_prefix [OF assms(4), of k] by simp
  have tk: "parseJsonStream parse (take k chunks) = take k (parseJsonStream parse chunks)" for k
    by (simp add: parseJsonStream_def runStream_take)
  have 1: "concat (parseJsonStream parse chunks) = map (\<lambda>(sep, s, v). v) items"
    using pre [of "length chunks"] assms(4) by (simp add: emittedWithin_all)
  have 2: "snd (runStream parse [] chunks) = sep @ p"
    using pre [of "length chunks"] assms(4) by (simp add: residue_all)
  have 3: "items = [] \<longrightarrow>
            (\<forall>k\<le>length chunks.
               concat (take k (parseJsonStream parse chunks)) = [] \<and>
               snd (runStream parse [] (take k chunks)) = streamText (take k chunks))"
  proof (intro impI allI)
    fix k assume i: "items = []" and "k \<le> length chunks"
    have "streamText (take k chunks) = take (length (streamText (take k chunks))) (sep @ p)"
      using streamText_take_prefix [OF assms(4), of k] i by simp
    then show "concat (take k (parseJsonStream parse chunks)) = [] \<and>
               snd (runStream parse [] (take k chunks)) = streamText (take k chunks)"
      using pre [of k] tk [of k] i by simp
  qed
  show ?thesis using 1 2 3 by blast
qed

theorem extractor_partial_witness:
  \<open>wellFormed exampleObjParse exampleOpenItems \<and> CHR ''{'' \<notin> set '','' \<and>
   neverCloses ''{"b":{"c":2}'' \<and>
   streamText exampleOpenChunks = layout exampleOpenItems @ '','' @ ''{"b":{"c":2}'' \<and>
   concat (parseJsonStream exampleObjParse exampleOpenChunks) = [(''a'', 1)] \<and>
   snd (runStream exampleObjParse [] exampleOpenChunks) = '',{"b":{"c":2}''\<close>
proof -
  have w: "wellFormed exampleObjParse exampleOpenItems"
    by code_simp
  have s: "CHR ''{'' \<notin> set '',''"
    by simp
  note t = extractor_partial [OF w s exampleOpen_neverCloses exampleOpenChunks_text]
  show ?thesis
    using w exampleOpen_neverCloses exampleOpenChunks_text t
    by (simp add: exampleOpenItems_def)
qed

text \<open>
  C7. A batch of three generations starts in a state whose session has the three
  placeholders and whose loading flag is set, and runs under any schedule and any three
  scripts. Then each generation is where its own script and the number of its own steps
  put it; no promise of \<open>generateArtifact\<close> is ever rejected, so \<open>Promise.all\<close> is pending
  until all three are settled and fulfilled then; \<open>isLoading\<close> is cleared exactly when all
  three are settled; every artifact shows what its own generation has published; an
  artifact whose generation fails keeps the status \<open>streaming\<close>; and an artifact whose
  generation does not fail has, once its steps are taken, the normalised text of its own
  stream and the status \<open>complete\<close> if that text is not empty (\<open>error\<close> if it is),
  whatever the other two generations do.
\<close>

theorem batch_tolerates_failure:
  assumes "batchReady sid k st" and "length scripts = 3"
  shows "fst (runBatch sid schedule (map startTask scripts, st)) =
           batchTasks scripts (count_list schedule) \<and>
         promiseAll (fst (runBatch sid schedule (map startTask scripts, st))) =
           (if list_all isSettled (fst (runBatch sid schedule (map startTask scripts, st)))
            then Some Fulfilled else None) \<and>
         isLoading (snd (runBatch sid schedule (map startTask scripts, st))) =
           (\<not> list_all isSettled (fst (runBatch sid schedule (map startTask scripts, st)))) \<and>
         (\<forall>i<3. artifacts (sessions (snd (runBatch sid schedule (map startTask scripts, st))) ! k) ! i =
                  artifactView (scripts ! i)
                    (fst (runBatch sid schedule (map startTask scripts, st)) ! i)
                    (artifacts (sessions st ! k) ! i)) \<and>
         (\<forall>i<3. snd (scripts ! i) \<longrightarrow>
                  status (artifacts (sessions (snd (runBatch sid schedule
                            (map startTask scripts, st))) ! k) ! i) = Streaming) \<and>
         (\<forall>i<3. \<not> snd (scripts ! i) \<and> length (fst (scripts ! i)) < count_list schedule i \<longrightarrow>
                  artifacts (sessions (snd (runBatch sid schedule
                     (map startTask scripts, st))) ! k) ! i =
                  (artifacts (sessions st ! k) ! i)
                    \<lparr>html := normalizeHtml (streamText (fst (scripts ! i))),
                     status := finalStatus (normalizeHtml (streamText (fst (scripts ! i))))\<rparr>)"
proof -
  let ?run = "runBatch sid schedule (map startTask scripts, st)"
  let ?arts = "artifacts (sessions st ! k)"
  note inv = runBatch_invariant [OF assms, of schedule]
  have t: "fst ?run = batchTasks scripts (count_list schedule)"
    using inv by blast
  have lo: "isLoading (snd ?run) = (\<not> list_all isSettled (fst ?run))"
    using inv by blast
  have v: "artifacts (sessions (snd ?run) ! k) = batchView scripts (count_list schedule) ?arts"
    using inv by simp
  have st0: "status (?arts ! i) = Streaming" if "i < 3" for i
  proof -
    have "list_all (\<lambda>a. html a = [] \<and> status a = Streaming) ?arts"
      and "map artifact_id ?arts = map artifact_id (placeholderArtifacts sid)"
      using assms(1) by (simp_all add: batchReady_def)
    moreover from this(2) have "length ?arts = 3"
      using length_map [of artifact_id ?arts] by (simp add: length_placeholders)
    ultimately show ?thesis
      using that by (simp add: list_all_length)
  qed
  have a: "\<forall>i<3. artifacts (sessions (snd ?run) ! k) ! i =
      artifactView (scripts ! i) (fst ?run ! i) (?arts ! i)"
    unfolding v t by (simp add: batchView_nth)
  have b: "\<forall>i<3. snd (scripts ! i) \<longrightarrow>
      status (artifacts (sessions (snd ?run) ! k) ! i) = Streaming"
    unfolding v using st0
    by (simp add: batchView_nth artifactView_def split: Task.splits)
  have c: "\<forall>i<3. \<not> snd (scripts ! i) \<and> length (fst (scripts ! i)) < count_list schedule i \<longrightarrow>
      artifacts (sessions (snd ?run) ! k) ! i =
        (?arts ! i)\<lparr>html := normalizeHtml (streamText (fst (scripts ! i))),
                     status := finalStatus (normalizeHtml (streamText (fst (scripts ! i))))\<rparr>"
    unfolding v
    by (simp add: batchView_nth batchTasks_nth artifactView_def taskAfter_def)
  have p: "promiseAll (fst ?run) = (if list_all isSettled (fst ?run) then Some Fulfilled else None)"
    unfolding t by (rule batchTasks_promiseAll)
  show ?thesis
    using t p lo a b c by blast
qed

theorem batch_tolerates_failure_witness:
  "batchReady ''s1'' 0 traceStart \<and> length exampleScripts = 3 \<and>
   isLoading (snd (runBatch ''s1'' [1, 0, 2, 1, 0, 2] (map startTask exampleScripts, traceStart))) = True \<and>
   isLoading (snd (runBatch ''s1'' [1, 0, 2, 1, 0, 2, 0] (map startTask exampleScripts, traceStart))) = False \<and>
   artifacts (sessions (snd (runBatch ''s1'' [1, 0, 2, 1, 0, 2, 0]
       (map startTask exampleScripts, traceStart))) ! 0) ! 1 =
     \<lparr>artifact_id = ''s1_1'', styleName = Some ''Designing...'', html = ''<p>b'', status = Streaming\<rparr> \<and>
   artifacts (sessions (snd (runBatch ''s1'' [1, 0, 2, 1, 0, 2, 0]
       (map startTask exampleScripts, traceStart))) ! 0) ! 2 =
     \<lparr>artifact_id = ''s1_2'', styleName = Some ''Designing...'', html = ''<p>c</p>'', status = Complete\<rparr>"
proof -
  have l: "length exampleScripts = 3" by (simp add: exampleScripts_def)
  note w1 = batch_tolerates_failure [OF traceStart_batchReady l, of "[1, 0, 2, 1, 0, 2]"]
  note w2 = batch_tolerates_failure [OF traceStart_batchReady l, of "[1, 0, 2, 1, 0, 2, 0]"]
  have a0: "artifacts (sessions traceStart ! 0) = placeholderArtifacts ''s1''"
    unfolding traceStart_eq by (simp add: exampleSession_def)
  have 1: "isLoading (snd (runBatch ''s1'' [1, 0, 2, 1, 0, 2] (map startTask exampleScripts, traceStart))) = True"
    using w1 unfolding exampleScripts_one_running by (simp add: isSettled_def)
  have 2: "isLoading (snd (runBatch ''s1'' [1, 0, 2, 1, 0, 2, 0] (map startTask exampleScripts, traceStart))) = False"
    using w2 unfolding exampleScripts_all_settled by (simp add: isSettled_def)
  have n: "normalizeHtml ''<p>c</p>'' = ''<p>c</p>''" by code_simp
  have 3: "artifacts (sessions (snd (runBatch ''s1'' [1, 0, 2, 1, 0, 2, 0]
       (map startTask exampleScripts, traceStart))) ! 0) ! 1 =
     artifactView (exampleScripts ! 1) (Settled Fulfilled) (placeholderArtifacts ''s1'' ! 1)"
    using w2 unfolding exampleScripts_all_settled a0 by simp
  have 4: "artifacts (sessions (snd (runBatch ''s1'' [1, 0, 2, 1, 0, 2, 0]
       (map startTask exampleScripts, traceStart))) ! 0) ! 2 =
     artifactView (exampleScripts ! 2) (Settled Fulfilled) (placeholderArtifacts ''s1'' ! 2)"
    using w2 unfolding exampleScripts_all_settled a0 by simp
  show ?thesis
    unfolding 3 4 using traceStart_batchReady l 1 2
    by (simp add: artifactView_def exampleScripts_def placeholderArtifacts_def streamText_def n
        finalStatus_def)
qed

end
